theory Spec2Isabelle
  imports Main "HOL-Library.Word" "HOL-Library.Sublist"
begin

section \<open>JavaScript strings\<close>

text \<open>
  A JavaScript string is a sequence of 16-bit code units; \<open>latex[i]\<close>, \<open>length\<close>,
  \<open>slice\<close>, \<open>startsWith\<close> and \<open>indexOf\<close> all count code units.  ASCII literals are
  written \<open>js ''...''\<close>; the backslash is the code unit \<open>BACKSLASH\<close>.
\<close>

type_synonym jschar = "16 word"
type_synonym jsstring = "jschar list"

definition js :: "string \<Rightarrow> jsstring" where
  "js cs = map of_char cs"

abbreviation SPACE :: jschar where "SPACE \<equiv> 0x20"
abbreviation DOLLAR :: jschar where "DOLLAR \<equiv> 0x24"
abbreviation BACKSLASH :: jschar where "BACKSLASH \<equiv> 0x5C"
abbreviation CARET :: jschar where "CARET \<equiv> 0x5E"
abbreviation UNDERSCORE :: jschar where "UNDERSCORE \<equiv> 0x5F"
abbreviation LBRACE :: jschar where "LBRACE \<equiv> 0x7B"
abbreviation RBRACE :: jschar where "RBRACE \<equiv> 0x7D"

text \<open>The regular expression \<open>/[a-zA-Z]/\<close> tested on a one-unit string.\<close>

definition isAlpha :: "jschar \<Rightarrow> bool" where
  "isAlpha c = ((0x41 \<le> c \<and> c \<le> 0x5A) \<or> (0x61 \<le> c \<and> c \<le> 0x7A))"

text \<open>\<open>str.slice(a, b)\<close> for non-negative \<open>a\<close>, \<open>b\<close>: empty when \<open>b \<le> a\<close>, clipped at the end.\<close>

definition slice :: "jsstring \<Rightarrow> nat \<Rightarrow> nat \<Rightarrow> jsstring" where
  "slice s a b = take (b - a) (drop a s)"

definition startsWith :: "jsstring \<Rightarrow> jsstring \<Rightarrow> bool" where
  "startsWith s p = (take (length p) s = p)"

text \<open>\<open>str.indexOf(c, from)\<close> for a single code unit; \<open>None\<close> stands for \<open>-1\<close>.\<close>

function indexOf :: "jsstring \<Rightarrow> jschar \<Rightarrow> nat \<Rightarrow> nat option" where
  "indexOf s c k =
     (if k < length s then (if s ! k = c then Some k else indexOf s c (Suc k)) else None)"
  by pat_completeness auto
termination
  by (relation "measure (\<lambda>(s, c, k). length s - k)") auto

declare indexOf.simps [simp del]

section \<open>The math nodes of the docx library\<close>

datatype mathnode =
    MathRun jsstring
  | MathFraction "mathnode list" "mathnode list"
  | MathRadical "mathnode list" "mathnode list"
  | MathSuperScript "mathnode list" "mathnode list"
  | MathSubScript "mathnode list" "mathnode list"

text \<open>
  The constructor arguments are, in this order: \<open>MathRun(text)\<close>;
  \<open>MathFraction({numerator, denominator})\<close>; \<open>MathRadical({children, degree})\<close>;
  \<open>MathSuperScript({children, superScript})\<close> and \<open>MathSubScript({children, subScript})\<close>,
  where \<open>children\<close> is the base of the script.
\<close>

text \<open>
  The only error the parser can raise: reading a property of \<open>null\<close>
  (\<open>num.endIndex\<close>, \<open>den.endIndex\<close>, \<open>rad.endIndex\<close>).
\<close>

datatype js_error = TypeError

section \<open>\<open>LATEX_SYMBOLS\<close>\<close>

text \<open>
  The object literal as an association list from command text to symbol.  Every key looked
  up starts with a backslash, so no inherited property of \<open>Object.prototype\<close> is ever hit.
\<close>

definition LATEX_SYMBOLS :: "(jsstring \<times> jsstring) list" where
  "LATEX_SYMBOLS =
   [(BACKSLASH # js ''alpha'', [0x03B1]), (BACKSLASH # js ''beta'', [0x03B2]),
    (BACKSLASH # js ''gamma'', [0x03B3]), (BACKSLASH # js ''theta'', [0x03B8]),
    (BACKSLASH # js ''pi'', [0x03C0]), (BACKSLASH # js ''sigma'', [0x03C3]),
    (BACKSLASH # js ''phi'', [0x03C6]), (BACKSLASH # js ''Phi'', [0x03A6]),
    (BACKSLASH # js ''delta'', [0x03B4]), (BACKSLASH # js ''lambda'', [0x03BB]),
    (BACKSLASH # js ''mu'', [0x03BC]),
    (BACKSLASH # js ''Delta'', [0x0394]), (BACKSLASH # js ''Omega'', [0x03A9]),
    (BACKSLASH # js ''ne'', [0x2260]), (BACKSLASH # js ''neq'', [0x2260]),
    (BACKSLASH # js ''le'', [0x2264]), (BACKSLASH # js ''ge'', [0x2265]),
    (BACKSLASH # js ''pm'', [0x00B1]), (BACKSLASH # js ''approx'', [0x2248]),
    (BACKSLASH # js ''times'', [0x00D7]), (BACKSLASH # js ''cdot'', [0x00B7]),
    (BACKSLASH # js ''div'', [0x00F7]), (BACKSLASH # js ''infty'', [0x221E]),
    (BACKSLASH # js ''rightarrow'', [0x2192]), (BACKSLASH # js ''leftarrow'', [0x2190]),
    (BACKSLASH # js ''Rightarrow'', [0x21D2]), (BACKSLASH # js ''Leftrightarrow'', [0x21D4]),
    (BACKSLASH # js ''circ'', [0x00B0]), (BACKSLASH # js ''degree'', [0x00B0]),
    (BACKSLASH # js ''angle'', [0x2220]),
    (BACKSLASH # js ''triangle'', [0x25B3]), (BACKSLASH # js ''cong'', [0x2245]),
    (BACKSLASH # js ''sim'', [0x223D]), (BACKSLASH # js ''parallel'', [0x2225]),
    (BACKSLASH # js ''perp'', [0x22A5]),
    (BACKSLASH # js ''cup'', [0x222A]), (BACKSLASH # js ''cap'', [0x2229]),
    (BACKSLASH # js ''in'', [0x2208]), (BACKSLASH # js ''subset'', [0x2282]),
    (BACKSLASH # js ''supset'', [0x2283]),
    (BACKSLASH # js ''forall'', [0x2200]), (BACKSLASH # js ''exists'', [0x2203]),
    (BACKSLASH # js ''sqrt'', []),
    (BACKSLASH # js ''frac'', [])]"

section \<open>\<open>extractGroup\<close> and \<open>getNextUnit\<close>\<close>

record group_result =
  content :: jsstring
  endIndex :: nat

record unit_result = group_result +
  isGroup :: bool

text \<open>
  The \<open>while (end < str.length && depth > 0)\<close> loop of \<open>extractGroup\<close>; the value is the
  final \<open>end\<close>.
\<close>

function scanGroup :: "jsstring \<Rightarrow> nat \<Rightarrow> nat \<Rightarrow> nat" where
  "scanGroup str end depth =
     (if end < length str \<and> depth > 0
      then scanGroup str (end + 1)
             (if str ! end = LBRACE then depth + 1
              else if str ! end = RBRACE then depth - 1
              else depth)
      else end)"
  by pat_completeness auto
termination
  by (relation "measure (\<lambda>(str, end, depth). length str - end)") auto

declare scanGroup.simps [simp del]

definition extractGroup :: "jsstring \<Rightarrow> nat \<Rightarrow> group_result" where
  "extractGroup str startIndex =
     (case indexOf str LBRACE startIndex of
        None \<Rightarrow> \<lparr>content = [], endIndex = startIndex + 1\<rparr>
      | Some start \<Rightarrow>
          (let end = scanGroup str (start + 1) 1
           in \<lparr>content = slice str (start + 1) (end - 1), endIndex = end\<rparr>))"

text \<open>
  The \<open>while (end < latex.length && /[a-zA-Z]/.test(latex[end]))\<close> loop, used by
  \<open>getNextUnit\<close> and by the generic command branch of the parser.
\<close>

function scanLetters :: "jsstring \<Rightarrow> nat \<Rightarrow> nat" where
  "scanLetters latex end =
     (if end < length latex \<and> isAlpha (latex ! end) then scanLetters latex (end + 1) else end)"
  by pat_completeness auto
termination
  by (relation "measure (\<lambda>(latex, end). length latex - end)") auto

declare scanLetters.simps [simp del]

text \<open>\<open>getNextUnit\<close>; \<open>None\<close> stands for the \<open>null\<close> returned at the end of the input.\<close>

definition getNextUnit :: "jsstring \<Rightarrow> nat \<Rightarrow> unit_result option" where
  "getNextUnit latex idx =
     (if idx \<ge> length latex then None
      else if latex ! idx = LBRACE then
        (let group = extractGroup latex idx
         in Some \<lparr>content = content group, endIndex = endIndex group, isGroup = True\<rparr>)
      else if latex ! idx = BACKSLASH then
        (let end = scanLetters latex (idx + 1);
             cmd = slice latex idx end
         in Some \<lparr>content = cmd, endIndex = end, isGroup = False\<rparr>)
      else Some \<lparr>content = [latex ! idx], endIndex = idx + 1, isGroup = False\<rparr>)"

section \<open>The symbol lookup\<close>

text \<open>
  The symbol lookup of the generic command branch: \<open>LATEX_SYMBOLS[cmd]\<close> when that is
  truthy (a non-empty string), the command text otherwise.
\<close>

definition symbolRun :: "jsstring \<Rightarrow> mathnode" where
  "symbolRun cmd =
     (case map_of LATEX_SYMBOLS cmd of
        Some symbol \<Rightarrow> if symbol \<noteq> [] then MathRun symbol else MathRun cmd
      | None \<Rightarrow> MathRun cmd)"

section \<open>Facts about the helpers\<close>

lemma scanGroup_ge: "end \<le> scanGroup str end depth"
proof (induction str "end" depth rule: scanGroup.induct)
  case (1 str e depth)
  show ?case
  proof (cases "e < length str \<and> depth > 0")
    case True
    let ?d = "if str ! e = LBRACE then depth + 1
              else if str ! e = RBRACE then depth - 1 else depth"
    have "scanGroup str e depth = scanGroup str (e + 1) ?d"
      using True by (subst scanGroup.simps) simp
    moreover have "e + 1 \<le> scanGroup str (e + 1) ?d"
      using "1" [OF True] .
    ultimately show ?thesis by linarith
  next
    case False
    then show ?thesis by (subst scanGroup.simps) auto
  qed
qed

lemma scanLetters_ge: "end \<le> scanLetters latex end"
proof (induction latex "end" rule: scanLetters.induct)
  case (1 latex e)
  show ?case
  proof (cases "e < length latex \<and> isAlpha (latex ! e)")
    case True
    have "scanLetters latex e = scanLetters latex (e + 1)"
      using True by (subst scanLetters.simps) simp
    moreover have "e + 1 \<le> scanLetters latex (e + 1)"
      using "1" [OF True] .
    ultimately show ?thesis by linarith
  next
    case False
    then show ?thesis by (subst scanLetters.simps) auto
  qed
qed

lemma indexOf_at: "k < length s \<Longrightarrow> s ! k = c \<Longrightarrow> indexOf s c k = Some k"
  by (subst indexOf.simps) simp

lemma length_slice_le: "length (slice s a b) \<le> length s - a"
  by (simp add: slice_def)

lemma getNextUnit_endIndex: "getNextUnit latex idx = Some u \<Longrightarrow> idx < endIndex u"
  using scanGroup_ge [of "idx + 1" latex 1] scanLetters_ge [of "idx + 1" latex]
  by (auto simp: getNextUnit_def extractGroup_def indexOf_at Let_def split: if_splits)

lemma getNextUnit_content:
  "getNextUnit latex idx = Some u \<Longrightarrow> length (content u) \<le> length latex - idx"
  using length_slice_le [of latex "idx + 1"] length_slice_le [of latex idx]
  by (auto simp: getNextUnit_def extractGroup_def indexOf_at Let_def split: if_splits)
    (metis Suc_eq_plus1 diff_le_self le_trans diff_diff_left)

section \<open>The parser loop\<close>

text \<open>
  The \<open>while (i < latex.length)\<close> loop of \<open>parseLatexNodes\<close>, with the cursor \<open>i\<close> and
  the array \<open>nodes\<close> as arguments; a recursive call \<open>parseLatexNodes(text)\<close> is
  \<open>parse_loop text 0 []\<close>.  \<open>nodes.pop()\<close> removes the last node and yields
  \<open>undefined\<close> on the empty array; \<open>break\<close> returns the nodes as they are.  The base
  is a node object, never an array, so \<open>Array.isArray(base) ? base : [base]\<close> is
  \<open>[base]\<close>.  Reading \<open>endIndex\<close> of the \<open>null\<close> that \<open>getNextUnit\<close> returns at the end of
  the input raises a TypeError.
\<close>

function parse_loop :: "jsstring \<Rightarrow> nat \<Rightarrow> mathnode list \<Rightarrow> js_error + mathnode list" where
  "parse_loop latex i nodes =
     (if i < length latex then
        (let char = latex ! i in
         if char = SPACE then parse_loop latex (i + 1) nodes
         else if char = CARET \<or> char = UNDERSCORE then
           (let base = (if nodes = [] then MathRun [] else last nodes);
                popped = butlast nodes
            in case getNextUnit latex (i + 1) of
                 None \<Rightarrow> Inr popped
               | Some nextInfo \<Rightarrow>
                   (case parse_loop (content nextInfo) 0 [] of
                      Inl err \<Rightarrow> Inl err
                    | Inr scriptChildren \<Rightarrow>
                        parse_loop latex (endIndex nextInfo)
                          (popped @ [if char = CARET then MathSuperScript [base] scriptChildren
                                     else MathSubScript [base] scriptChildren])))
         else if char = BACKSLASH then
           (let remaining = drop i latex in
            if startsWith remaining (BACKSLASH # js ''frac'') then
              (case getNextUnit latex (i + 5) of
                 None \<Rightarrow> Inl TypeError
               | Some num \<Rightarrow>
                   (case getNextUnit latex (endIndex num) of
                      None \<Rightarrow> Inl TypeError
                    | Some den \<Rightarrow>
                        (case parse_loop (content num) 0 [] of
                           Inl err \<Rightarrow> Inl err
                         | Inr numer \<Rightarrow>
                             (case parse_loop (content den) 0 [] of
                                Inl err \<Rightarrow> Inl err
                              | Inr denom \<Rightarrow>
                                  parse_loop latex (endIndex den)
                                    (nodes @ [MathFraction numer denom])))))
            else if startsWith remaining (BACKSLASH # js ''sqrt'') then
              (case getNextUnit latex (i + 5) of
                 None \<Rightarrow> Inl TypeError
               | Some rad \<Rightarrow>
                   (case parse_loop (content rad) 0 [] of
                      Inl err \<Rightarrow> Inl err
                    | Inr radChildren \<Rightarrow>
                        parse_loop latex (endIndex rad) (nodes @ [MathRadical radChildren []])))
            else
              (let end = scanLetters latex (i + 1);
                   cmd = slice latex i end
               in parse_loop latex end (nodes @ [symbolRun cmd])))
         else if char = LBRACE \<or> char = RBRACE then parse_loop latex (i + 1) nodes
         else parse_loop latex (i + 1) (nodes @ [MathRun [char]]))
      else Inr nodes)"
  by pat_completeness auto
termination
proof (relation "measures [\<lambda>(latex, i, nodes). length latex, \<lambda>(latex, i, nodes). length latex - i]",
    goal_cases)
  case 1
  show ?case by simp
next
  case 2
  then show ?case by simp
next
  case (3 latex i nodes char base popped nextInfo)
  then show ?case
    using getNextUnit_content [of latex "i + 1" nextInfo] by (simp, arith?)
next
  case (4 latex i nodes char base popped nextInfo scriptChildren)
  then show ?case
    using getNextUnit_endIndex [of latex "i + 1" nextInfo] by (simp, arith?)
next
  case (5 latex i nodes char remaining num den)
  then show ?case
    using getNextUnit_content [of latex "i + 5" num] by (simp, arith?)
next
  case (6 latex i nodes char remaining num den numer)
  then show ?case
    using getNextUnit_content [of latex "endIndex num" den]
      getNextUnit_endIndex [of latex "i + 5" num] by (simp, arith?)
next
  case (7 latex i nodes char remaining num den numer denom)
  then show ?case
    using getNextUnit_endIndex [of latex "endIndex num" den]
      getNextUnit_endIndex [of latex "i + 5" num] by (simp, arith?)
next
  case (8 latex i nodes char remaining rad)
  then show ?case
    using getNextUnit_content [of latex "i + 5" rad] by (simp, arith?)
next
  case (9 latex i nodes char remaining rad radChildren)
  then show ?case
    using getNextUnit_endIndex [of latex "i + 5" rad] by (simp, arith?)
next
  case (10 latex i nodes char remaining e cmd)
  then show ?case
    using scanLetters_ge [of "i + 1" latex] by (simp, arith?)
next
  case 11
  then show ?case by simp
next
  case 12
  then show ?case by simp
qed

declare parse_loop.simps [simp del]

definition parseLatexNodes :: "jsstring \<Rightarrow> js_error + mathnode list" where
  "parseLatexNodes latex = parse_loop latex 0 []"

text \<open>
  The cursor alone: where one pass of the loop body at cursor \<open>i\<close> leaves the cursor
  (\<open>i++\<close>, \<open>i = nextInfo.endIndex\<close>, \<open>i = den.endIndex\<close>, \<open>i = rad.endIndex\<close>,
  \<open>i = end\<close>), \<open>None\<close> where the loop ends there by \<open>break\<close> or by the TypeError.
  \<open>scanReaches latex i j\<close>: the loop with its cursor at \<open>i\<close> comes to test the cursor
  \<open>j\<close>, as long as no operand raises on the way.
\<close>

definition nextCursor :: "jsstring \<Rightarrow> nat \<Rightarrow> nat option" where
  "nextCursor latex i =
     (let char = latex ! i in
      if char = SPACE then Some (i + 1)
      else if char = CARET \<or> char = UNDERSCORE then
        (case getNextUnit latex (i + 1) of
           None \<Rightarrow> None
         | Some nextInfo \<Rightarrow> Some (endIndex nextInfo))
      else if char = BACKSLASH then
        (let remaining = drop i latex in
         if startsWith remaining (BACKSLASH # js ''frac'') then
           (case getNextUnit latex (i + 5) of
              None \<Rightarrow> None
            | Some num \<Rightarrow>
                (case getNextUnit latex (endIndex num) of
                   None \<Rightarrow> None
                 | Some den \<Rightarrow> Some (endIndex den)))
         else if startsWith remaining (BACKSLASH # js ''sqrt'') then
           (case getNextUnit latex (i + 5) of
              None \<Rightarrow> None
            | Some rad \<Rightarrow> Some (endIndex rad))
         else Some (scanLetters latex (i + 1)))
      else Some (i + 1))"

lemma nextCursor_gt: "nextCursor latex i = Some i' \<Longrightarrow> i < i'"
  using scanLetters_ge [of "i + 1" latex]
  by (auto simp: nextCursor_def Let_def split: if_splits option.splits
      dest!: getNextUnit_endIndex)

function scanReaches :: "jsstring \<Rightarrow> nat \<Rightarrow> nat \<Rightarrow> bool" where
  "scanReaches latex i j =
     (if i = j then True
      else if i < j \<and> i < length latex then
        (case nextCursor latex i of
           None \<Rightarrow> False
         | Some i' \<Rightarrow> scanReaches latex i' j)
      else False)"
  by pat_completeness auto
termination
  by (relation "measure (\<lambda>(latex, i, j). j - i)") (auto dest: nextCursor_gt)

declare scanReaches.simps [simp del]

section \<open>Document assembly\<close>

text \<open>
  \<open>TextRun({text, bold, size})\<close>, with \<open>bold\<close> false when the option is absent, and the
  math zone \<open>Math({children})\<close>; \<open>Paragraph({children, spacing: {before, after}})\<close>.
\<close>

datatype inline = TextRun jsstring bool nat | Math "mathnode list"

datatype docx_paragraph = Paragraph "inline list" nat nat

definition createMathParagraph :: "jsstring \<Rightarrow> js_error + inline" where
  "createMathParagraph txt =
     (case parseLatexNodes txt of Inl err \<Rightarrow> Inl err | Inr nodes \<Rightarrow> Inr (Math nodes))"

text \<open>\<open>str.replace(pattern, replacement)\<close> with a string pattern: the first occurrence only.\<close>

fun replaceFirst :: "jsstring \<Rightarrow> jsstring \<Rightarrow> jsstring \<Rightarrow> jsstring" where
  "replaceFirst pat rep [] = (if pat = [] then rep else [])"
| "replaceFirst pat rep (c # cs) =
     (if startsWith (c # cs) pat then rep @ drop (length pat) (c # cs)
      else c # replaceFirst pat rep cs)"

text \<open>
  \<open>line.split(/\$([^$]+)\$/g)\<close>, following the split algorithm of ECMAScript for a regular
  expression with one capture group.  \<open>matchMath s q\<close> is the match of the expression that
  starts exactly at \<open>q\<close>: a dollar sign, the longest run of units other than the dollar sign,
  which must not be empty, and a dollar sign; it yields the captured run and the index after
  the match.  The loop keeps \<open>p\<close>, the start of the pending piece, and \<open>q\<close>, the position
  tried next; each match contributes the piece before it and its capture.
\<close>

definition matchMath :: "jsstring \<Rightarrow> nat \<Rightarrow> (jsstring \<times> nat) option" where
  "matchMath s q =
     (if q < length s \<and> s ! q = DOLLAR then
        (let body = takeWhile (\<lambda>c. c \<noteq> DOLLAR) (drop (q + 1) s);
             e = q + 1 + length body
         in if body \<noteq> [] \<and> e < length s then Some (body, e + 1) else None)
      else None)"

lemma matchMath_gt: "matchMath s q = Some (cap, e) \<Longrightarrow> q < e"
  by (auto simp: matchMath_def Let_def split: if_splits)

function splitLoop :: "jsstring \<Rightarrow> nat \<Rightarrow> nat \<Rightarrow> jsstring list" where
  "splitLoop s p q =
     (if q < length s then
        (case matchMath s q of
           None \<Rightarrow> splitLoop s p (q + 1)
         | Some (cap, e) \<Rightarrow>
             if e = p then splitLoop s p (q + 1)
             else slice s p q # cap # splitLoop s e e)
      else [slice s p (length s)])"
  by pat_completeness auto
termination
  by (relation "measure (\<lambda>(s, p, q). length s - q)") (auto dest: matchMath_gt)

declare splitLoop.simps [simp del]

definition splitMath :: "jsstring \<Rightarrow> jsstring list" where
  "splitMath s = (if s = [] then [s] else splitLoop s 0 0)"

text \<open>
  \<open>parts.map((part, index) => ...)\<close>: the parts at odd indices become math zones, the others
  text runs; an exception of the parser leaves the map.
\<close>

fun mapParts :: "nat \<Rightarrow> jsstring list \<Rightarrow> js_error + inline list" where
  "mapParts index [] = Inr []"
| "mapParts index (part # rest) =
     (case (if index mod 2 = 1 then createMathParagraph part
            else Inr (TextRun part False 24)) of
        Inl err \<Rightarrow> Inl err
      | Inr el \<Rightarrow>
          (case mapParts (index + 1) rest of
             Inl err \<Rightarrow> Inl err
           | Inr els \<Rightarrow> Inr (el # els)))"

text \<open>The callback of \<open>lines.map\<close> in \<open>generateWordDocument\<close>: one line, one paragraph.\<close>

definition lineParagraph :: "jsstring \<Rightarrow> js_error + docx_paragraph" where
  "lineParagraph line =
     (if startsWith line (js ''## '') then
        Inr (Paragraph [TextRun (replaceFirst (js ''## '') [] line) True 32] 200 100)
      else
        (let parts = splitMath line
         in case mapParts 0 parts of
              Inl err \<Rightarrow> Inl err
            | Inr paragraphChildren \<Rightarrow> Inr (Paragraph paragraphChildren 120 120)))"

section \<open>The model fallback of \<open>extractContentFromFiles\<close>\<close>

definition MODELS_TO_TRY :: "string list" where
  "MODELS_TO_TRY = [''gemini-2.5-flash'', ''gemini-2.5-pro'', ''gemini-2.0-flash'']"

text \<open>
  What a \<open>catch\<close> can receive: an error object (any truthy value, with a description), or a
  falsy value, which \<open>lastError || new Error(...)\<close> replaces.
\<close>

datatype thrown = ErrorObject string | FalsyValue

definition allAttemptsFailed :: thrown where
  "allAttemptsFailed =
     ErrorObject ''All model attempts failed. Please verify your API key and connection.''"

text \<open>
  The \<open>for (const modelName of MODELS_TO_TRY)\<close> loop.  The body of the \<open>try\<close> (creating the
  model, reading the files, the request and \<open>response.text()\<close>) is the parameter
  \<open>attempt\<close>: for each model name, the text returned or the value thrown.  \<open>lastError\<close> is
  \<open>None\<close> for \<open>null\<close>.
\<close>

fun tryModels :: "(string \<Rightarrow> thrown + string) \<Rightarrow> string list \<Rightarrow> thrown option \<Rightarrow> thrown + string" where
  "tryModels attempt [] lastError =
     Inl (case lastError of
            Some (ErrorObject msg) \<Rightarrow> ErrorObject msg
          | Some FalsyValue \<Rightarrow> allAttemptsFailed
          | None \<Rightarrow> allAttemptsFailed)"
| "tryModels attempt (modelName # rest) lastError =
     (case attempt modelName of
        Inr txt \<Rightarrow> Inr txt
      | Inl error \<Rightarrow> tryModels attempt rest (Some error))"

definition extractContentFromFiles :: "(string \<Rightarrow> thrown + string) \<Rightarrow> thrown + string" where
  "extractContentFromFiles attempt = tryModels attempt MODELS_TO_TRY None"

section \<open>Notions used by the claims\<close>

text \<open>Every script node of the tree, at any depth, has a base that is not empty.\<close>

fun scriptBasesNonEmpty :: "mathnode \<Rightarrow> bool" where
  "scriptBasesNonEmpty (MathRun t) = True"
| "scriptBasesNonEmpty (MathFraction n d) =
     (list_all scriptBasesNonEmpty n \<and> list_all scriptBasesNonEmpty d)"
| "scriptBasesNonEmpty (MathRadical c d) =
     (list_all scriptBasesNonEmpty c \<and> list_all scriptBasesNonEmpty d)"
| "scriptBasesNonEmpty (MathSuperScript b s) =
     (b \<noteq> [] \<and> list_all scriptBasesNonEmpty b \<and> list_all scriptBasesNonEmpty s)"
| "scriptBasesNonEmpty (MathSubScript b s) =
     (b \<noteq> [] \<and> list_all scriptBasesNonEmpty b \<and> list_all scriptBasesNonEmpty s)"

text \<open>A unit that is no escape marker, no script operator and no brace.\<close>

definition plainChar :: "jschar \<Rightarrow> bool" where
  "plainChar c =
     (c \<noteq> BACKSLASH \<and> c \<noteq> CARET \<and> c \<noteq> UNDERSCORE \<and> c \<noteq> LBRACE \<and> c \<noteq> RBRACE)"

text \<open>
  The brace at \<open>start\<close> is never closed: in every prefix of the text after it, the closing
  braces do not outnumber the opening braces of that prefix.
\<close>

definition opens :: "jsstring \<Rightarrow> nat" where
  "opens xs = length (filter (\<lambda>c. c = LBRACE) xs)"

definition closes :: "jsstring \<Rightarrow> nat" where
  "closes xs = length (filter (\<lambda>c. c = RBRACE) xs)"

definition neverClosed :: "jsstring \<Rightarrow> nat \<Rightarrow> bool" where
  "neverClosed str start =
     (start < length str \<and> str ! start = LBRACE
      \<and> list_all (\<lambda>pre. closes pre \<le> opens pre) (prefixes (drop (start + 1) str)))"

text \<open>
  The pieces of a split line put together again, with the dollar signs around the pieces at
  odd positions.
\<close>

fun weave :: "jsstring list \<Rightarrow> jsstring" where
  "weave [] = []"
| "weave [t] = t"
| "weave (t # m # rest) = t @ DOLLAR # m @ DOLLAR # weave rest"

text \<open>
  A list of the form text, math, text, ..., text (never empty, odd length), the pieces at
  even positions satisfying \<open>T\<close> and those at odd positions \<open>M\<close>; the pieces at odd
  positions.
\<close>

fun alternating :: "('a \<Rightarrow> bool) \<Rightarrow> ('a \<Rightarrow> bool) \<Rightarrow> 'a list \<Rightarrow> bool" where
  "alternating T M [] = False"
| "alternating T M [t] = T t"
| "alternating T M (t # m # rest) = (T t \<and> M m \<and> alternating T M rest)"

fun mathParts :: "'a list \<Rightarrow> 'a list" where
  "mathParts (t # m # rest) = m # mathParts rest"
| "mathParts [t] = []"
| "mathParts [] = []"

text \<open>
  The inline elements that belong to the pieces: a text run of size 24 for each piece at an
  even position, the math zone of the parsed piece for each piece at an odd position.
\<close>

fun assembled :: "jsstring list \<Rightarrow> inline list \<Rightarrow> bool" where
  "assembled [] els = (els = [])"
| "assembled [t] els = (els = [TextRun t False 24])"
| "assembled (t # m # rest) els =
     (case els of
        el # zone # els' \<Rightarrow>
          el = TextRun t False 24 \<and> createMathParagraph m = Inr zone \<and> assembled rest els'
      | _ \<Rightarrow> False)"

text \<open>
  A text contains a delimited segment when the expression matches somewhere in it; a math
  segment parses when the parser returns for it.
\<close>

definition hasSegment :: "jsstring \<Rightarrow> bool" where
  "hasSegment t = list_ex (\<lambda>q. matchMath t q \<noteq> None) [0..<length t]"

definition parses :: "jsstring \<Rightarrow> bool" where
  "parses m = (case parseLatexNodes m of Inl err \<Rightarrow> False | Inr nodes \<Rightarrow> True)"

section \<open>The branches of the parser loop\<close>

lemma parse_loop_end: "\<not> i < length latex \<Longrightarrow> parse_loop latex i nodes = Inr nodes"
  by (subst parse_loop.simps) simp

lemma parse_loop_space:
  "i < length latex \<Longrightarrow> latex ! i = SPACE \<Longrightarrow> parse_loop latex i nodes = parse_loop latex (i + 1) nodes"
  by (subst parse_loop.simps) simp

lemma parse_loop_script:
  "i < length latex \<Longrightarrow> latex ! i = CARET \<or> latex ! i = UNDERSCORE \<Longrightarrow>
   parse_loop latex i nodes =
     (case getNextUnit latex (i + 1) of
        None \<Rightarrow> Inr (butlast nodes)
      | Some nextInfo \<Rightarrow>
          (case parse_loop (content nextInfo) 0 [] of
             Inl err \<Rightarrow> Inl err
           | Inr scriptChildren \<Rightarrow>
               parse_loop latex (endIndex nextInfo)
                 (butlast nodes @
                  [if latex ! i = CARET
                   then MathSuperScript [if nodes = [] then MathRun [] else last nodes] scriptChildren
                   else MathSubScript [if nodes = [] then MathRun [] else last nodes] scriptChildren])))"
  by (subst parse_loop.simps) (auto simp: Let_def)

lemma parse_loop_frac:
  "i < length latex \<Longrightarrow> startsWith (drop i latex) (BACKSLASH # js ''frac'') \<Longrightarrow>
   parse_loop latex i nodes =
     (case getNextUnit latex (i + 5) of
        None \<Rightarrow> Inl TypeError
      | Some num \<Rightarrow>
          (case getNextUnit latex (endIndex num) of
             None \<Rightarrow> Inl TypeError
           | Some den \<Rightarrow>
               (case parse_loop (content num) 0 [] of
                  Inl err \<Rightarrow> Inl err
                | Inr numer \<Rightarrow>
                    (case parse_loop (content den) 0 [] of
                       Inl err \<Rightarrow> Inl err
                     | Inr denom \<Rightarrow>
                         parse_loop latex (endIndex den) (nodes @ [MathFraction numer denom])))))"
proof -
  assume a: "i < length latex" "startsWith (drop i latex) (BACKSLASH # js ''frac'')"
  then have "latex ! i = BACKSLASH"
    by (cases "drop i latex") (auto simp: startsWith_def js_def hd_drop_conv_nth[symmetric])
  with a show ?thesis
    by (subst parse_loop.simps) (simp add: Let_def)
qed

lemma parse_loop_sqrt:
  "i < length latex \<Longrightarrow> startsWith (drop i latex) (BACKSLASH # js ''sqrt'') \<Longrightarrow>
   parse_loop latex i nodes =
     (case getNextUnit latex (i + 5) of
        None \<Rightarrow> Inl TypeError
      | Some rad \<Rightarrow>
          (case parse_loop (content rad) 0 [] of
             Inl err \<Rightarrow> Inl err
           | Inr radChildren \<Rightarrow>
               parse_loop latex (endIndex rad) (nodes @ [MathRadical radChildren []])))"
proof -
  assume a: "i < length latex" "startsWith (drop i latex) (BACKSLASH # js ''sqrt'')"
  then have "latex ! i = BACKSLASH"
    by (cases "drop i latex") (auto simp: startsWith_def js_def hd_drop_conv_nth[symmetric])
  moreover from a have "\<not> startsWith (drop i latex) (BACKSLASH # js ''frac'')"
    by (auto simp: startsWith_def js_def)
  ultimately show ?thesis using a
    by (subst parse_loop.simps) (simp add: Let_def)
qed

lemma parse_loop_command:
  "i < length latex \<Longrightarrow> latex ! i = BACKSLASH \<Longrightarrow>
   \<not> startsWith (drop i latex) (BACKSLASH # js ''frac'') \<Longrightarrow>
   \<not> startsWith (drop i latex) (BACKSLASH # js ''sqrt'') \<Longrightarrow>
   parse_loop latex i nodes =
     parse_loop latex (scanLetters latex (i + 1))
       (nodes @ [symbolRun (slice latex i (scanLetters latex (i + 1)))])"
  by (subst parse_loop.simps) (simp add: Let_def)

lemma parse_loop_brace:
  "i < length latex \<Longrightarrow> latex ! i = LBRACE \<or> latex ! i = RBRACE \<Longrightarrow>
   parse_loop latex i nodes = parse_loop latex (i + 1) nodes"
  by (subst parse_loop.simps) (auto simp: Let_def)

lemma parse_loop_char:
  "i < length latex \<Longrightarrow> latex ! i \<noteq> SPACE \<Longrightarrow> plainChar (latex ! i) \<Longrightarrow>
   parse_loop latex i nodes = parse_loop latex (i + 1) (nodes @ [MathRun [latex ! i]])"
  by (subst parse_loop.simps) (simp add: Let_def plainChar_def)

lemma parse_loop_plain_prefix:
  "list_all plainChar t \<Longrightarrow> i \<le> length t \<Longrightarrow>
   parse_loop (t @ rest) i nodes =
     parse_loop (t @ rest) (length t)
       (nodes @ map (\<lambda>c. MathRun [c]) (filter (\<lambda>c. c \<noteq> SPACE) (drop i t)))"
proof (induction "length t - i" arbitrary: i nodes)
  case 0
  then show ?case by simp
next
  case (Suc n)
  then have lt: "i < length t" and lt': "i < length (t @ rest)" by simp_all
  have at: "(t @ rest) ! i = t ! i" using lt by (simp add: nth_append)
  have plain: "plainChar (t ! i)"
    using Suc.prems(1) lt by (simp add: list_all_length)
  have dr: "drop i t = t ! i # drop (Suc i) t"
    using lt by (simp add: Cons_nth_drop_Suc)
  have ih: "parse_loop (t @ rest) (Suc i) ns =
     parse_loop (t @ rest) (length t)
       (ns @ map (\<lambda>c. MathRun [c]) (filter (\<lambda>c. c \<noteq> SPACE) (drop (Suc i) t)))" for ns
    using Suc.hyps(1) [of "Suc i" ns] Suc.hyps(2) Suc.prems(1) lt by simp
  show ?case
  proof (cases "t ! i = SPACE")
    case True
    then show ?thesis
      using parse_loop_space [OF lt', of nodes] at ih [of nodes] dr by simp
  next
    case False
    then show ?thesis
      using parse_loop_char [OF lt', of nodes] at plain ih [of "nodes @ [MathRun [t ! i]]"] dr
      by simp
  qed
qed

lemma list_all_butlast: "list_all P xs \<Longrightarrow> list_all P (butlast xs)"
  by (auto simp: list_all_iff dest: in_set_butlastD)

lemma list_all_last: "list_all P xs \<Longrightarrow> xs \<noteq> [] \<Longrightarrow> P (last xs)"
  by (simp add: list_all_iff)

lemma scriptBasesNonEmpty_symbolRun: "scriptBasesNonEmpty (symbolRun cmd)"
  by (simp add: symbolRun_def split: option.split)

lemma parse_loop_scriptBases:
  "list_all scriptBasesNonEmpty nodes \<Longrightarrow> parse_loop latex i nodes = Inr out \<Longrightarrow>
   list_all scriptBasesNonEmpty out"
proof (induction latex i nodes arbitrary: out rule: parse_loop.induct)
  case (1 latex i nodes)
  note IH = "1.IH" and ok = "1.prems"(1) and res = "1.prems"(2)
  show ?case
  proof (cases "i < length latex")
    case False
    with res ok show ?thesis by (simp add: parse_loop_end)
  next
    case lt: True
    let ?frac = "startsWith (drop i latex) (BACKSLASH # js ''frac'')"
    let ?sqrt = "startsWith (drop i latex) (BACKSLASH # js ''sqrt'')"
    consider (space) "latex ! i = SPACE"
      | (script) "latex ! i = CARET \<or> latex ! i = UNDERSCORE"
      | (frac) "latex ! i = BACKSLASH" ?frac
      | (sqrt) "latex ! i = BACKSLASH" "\<not> ?frac" ?sqrt
      | (cmd) "latex ! i = BACKSLASH" "\<not> ?frac" "\<not> ?sqrt"
      | (brace) "latex ! i = LBRACE \<or> latex ! i = RBRACE"
      | (char) "latex ! i \<noteq> SPACE" "plainChar (latex ! i)"
      by (auto simp: plainChar_def)
    then show ?thesis
    proof cases
      case space
      show ?thesis
        using IH(1) [OF lt refl space ok] res parse_loop_space [OF lt space] by simp
    next
      case script
      then have ns: "latex ! i \<noteq> SPACE" by auto
      let ?base = "if nodes = [] then MathRun [] else last nodes"
      have base_ok: "scriptBasesNonEmpty ?base"
        using ok by (simp add: list_all_last)
      note eq = parse_loop_script [OF lt script, of nodes]
      show ?thesis
      proof (cases "getNextUnit latex (i + 1)")
        case None
        with eq res have "out = butlast nodes" by simp
        with ok show ?thesis by (simp add: list_all_butlast)
      next
        case (Some u)
        show ?thesis
        proof (cases "parse_loop (content u) 0 []")
          case (Inl e)
          with eq res Some show ?thesis by simp
        next
          case (Inr sc)
          have sc_ok: "list_all scriptBasesNonEmpty sc"
            using IH(2) [OF lt refl ns script refl refl Some _ Inr] by simp
          let ?node = "if latex ! i = CARET then MathSuperScript [?base] sc
                       else MathSubScript [?base] sc"
          have "list_all scriptBasesNonEmpty (butlast nodes @ [?node])"
            using ok sc_ok base_ok by (simp add: list_all_butlast)
          moreover have "parse_loop latex (endIndex u) (butlast nodes @ [?node]) = Inr out"
            using eq res Some Inr by simp
          ultimately show ?thesis
            using IH(3) [OF lt refl ns script refl refl Some Inr] by blast
        qed
      qed
    next
      case frac
      then have ns: "latex ! i \<noteq> SPACE" and nscr: "\<not> (latex ! i = CARET \<or> latex ! i = UNDERSCORE)"
        by auto
      note eq = parse_loop_frac [OF lt frac(2), of nodes]
      from eq res obtain num where num: "getNextUnit latex (i + 5) = Some num"
        by (cases "getNextUnit latex (i + 5)") auto
      from eq res num obtain den where den: "getNextUnit latex (endIndex num) = Some den"
        by (cases "getNextUnit latex (endIndex num)") auto
      from eq res num den obtain n where n: "parse_loop (content num) 0 [] = Inr n"
        by (cases "parse_loop (content num) 0 []") auto
      from eq res num den n obtain d where d: "parse_loop (content den) 0 [] = Inr d"
        by (cases "parse_loop (content den) 0 []") auto
      have n_ok: "list_all scriptBasesNonEmpty n"
        using IH(4) [OF lt refl ns nscr frac(1) refl frac(2) num den _ n] by simp
      have d_ok: "list_all scriptBasesNonEmpty d"
        using IH(5) [OF lt refl ns nscr frac(1) refl frac(2) num den n _ d] by simp
      have "list_all scriptBasesNonEmpty (nodes @ [MathFraction n d])"
        using ok n_ok d_ok by simp
      moreover have "parse_loop latex (endIndex den) (nodes @ [MathFraction n d]) = Inr out"
        using eq res num den n d by simp
      ultimately show ?thesis
        using IH(6) [OF lt refl ns nscr frac(1) refl frac(2) num den n d] by blast
    next
      case sqrt
      then have ns: "latex ! i \<noteq> SPACE" and nscr: "\<not> (latex ! i = CARET \<or> latex ! i = UNDERSCORE)"
        by auto
      note eq = parse_loop_sqrt [OF lt sqrt(3), of nodes]
      from eq res obtain rad where rad: "getNextUnit latex (i + 5) = Some rad"
        by (cases "getNextUnit latex (i + 5)") auto
      from eq res rad obtain c where c: "parse_loop (content rad) 0 [] = Inr c"
        by (cases "parse_loop (content rad) 0 []") auto
      have c_ok: "list_all scriptBasesNonEmpty c"
        using IH(7) [OF lt refl ns nscr sqrt(1) refl sqrt(2) sqrt(3) rad _ c] by simp
      have "list_all scriptBasesNonEmpty (nodes @ [MathRadical c []])"
        using ok c_ok by simp
      moreover have "parse_loop latex (endIndex rad) (nodes @ [MathRadical c []]) = Inr out"
        using eq res rad c by simp
      ultimately show ?thesis
        using IH(8) [OF lt refl ns nscr sqrt(1) refl sqrt(2) sqrt(3) rad c] by blast
    next
      case cmd
      then have ns: "latex ! i \<noteq> SPACE" and nscr: "\<not> (latex ! i = CARET \<or> latex ! i = UNDERSCORE)"
        by auto
      let ?e = "scanLetters latex (i + 1)"
      let ?nodes = "nodes @ [symbolRun (slice latex i ?e)]"
      have "list_all scriptBasesNonEmpty ?nodes"
        using ok by (simp add: scriptBasesNonEmpty_symbolRun)
      moreover have "parse_loop latex ?e ?nodes = Inr out"
        using parse_loop_command [OF lt cmd, of nodes] res by simp
      ultimately show ?thesis
        using IH(9) [OF lt refl ns nscr cmd(1) refl cmd(2) cmd(3) refl refl] by blast
    next
      case brace
      then have ns: "latex ! i \<noteq> SPACE" and nscr: "\<not> (latex ! i = CARET \<or> latex ! i = UNDERSCORE)"
        and nb: "latex ! i \<noteq> BACKSLASH"
        by auto
      show ?thesis
        using IH(10) [OF lt refl ns nscr nb brace ok] res parse_loop_brace [OF lt brace] by simp
    next
      case char
      then have nscr: "\<not> (latex ! i = CARET \<or> latex ! i = UNDERSCORE)"
        and nb: "latex ! i \<noteq> BACKSLASH" and nbr: "\<not> (latex ! i = LBRACE \<or> latex ! i = RBRACE)"
        by (auto simp: plainChar_def)
      have "list_all scriptBasesNonEmpty (nodes @ [MathRun [latex ! i]])"
        using ok by simp
      moreover have "parse_loop latex (i + 1) (nodes @ [MathRun [latex ! i]]) = Inr out"
        using parse_loop_char [OF lt char, of nodes] res by simp
      ultimately show ?thesis
        using IH(11) [OF lt refl char(1) nscr nb nbr] by blast
    qed
  qed
qed

section \<open>Symbol commands\<close>

lemma scanLetters_run:
  "list_all isAlpha letters \<Longrightarrow> rest = [] \<or> \<not> isAlpha (hd rest) \<Longrightarrow>
   scanLetters (pre @ letters @ rest) (length pre) = length pre + length letters"
proof (induction letters arbitrary: pre)
  case Nil
  then show ?case
    by (subst scanLetters.simps) (auto simp: nth_append hd_conv_nth)
next
  case (Cons c cs)
  have "scanLetters (pre @ (c # cs) @ rest) (length pre)
      = scanLetters (pre @ (c # cs) @ rest) (length pre + 1)"
    using Cons.prems(1) by (subst scanLetters.simps) (simp add: nth_append)
  also have "\<dots> = scanLetters ((pre @ [c]) @ cs @ rest) (length (pre @ [c]))"
    by simp
  also have "\<dots> = length (pre @ [c]) + length cs"
    using Cons.IH [of "pre @ [c]"] Cons.prems by simp
  finally show ?case by simp
qed

lemma startsWith_prefix: "startsWith s p \<longleftrightarrow> prefix p s"
proof
  assume "startsWith s p"
  then have "s = p @ drop (length p) s"
    unfolding startsWith_def by (metis append_take_drop_id)
  then show "prefix p s" by (metis prefixI)
next
  assume "prefix p s"
  then show "startsWith s p" by (auto simp: startsWith_def prefix_def)
qed

lemma prefix_letters_rest:
  assumes "list_all isAlpha p" "rest = [] \<or> \<not> isAlpha (hd rest)"
  shows "prefix p (letters @ rest) \<longleftrightarrow> prefix p letters"
proof
  assume "prefix p (letters @ rest)"
  then have "prefix p letters \<or> (\<exists>us. p = letters @ us \<and> prefix us rest)"
    by (simp add: prefix_append)
  then consider "prefix p letters" | us where "us \<noteq> []" "p = letters @ us" "prefix us rest"
    by (metis append_Nil2 prefix_order.order_refl)
  then show "prefix p letters"
  proof cases
    case 1
    then show ?thesis .
  next
    case 2
    then have "rest \<noteq> []" "hd us = hd rest" "hd us \<in> set p"
      by (auto simp: prefix_def)
    with assms show ?thesis by (auto simp: list_all_iff)
  qed
next
  assume "prefix p letters"
  then show "prefix p (letters @ rest)" by (simp add: prefix_prefix)
qed

lemma LATEX_SYMBOLS_empty:
  "map_of LATEX_SYMBOLS cmd = Some [] \<Longrightarrow>
   cmd = BACKSLASH # js ''sqrt'' \<or> cmd = BACKSLASH # js ''frac''"
  by (drule map_of_SomeD) (simp add: LATEX_SYMBOLS_def)


lemma symbolRun_lookup:
  assumes "\<not> prefix (js ''frac'') letters" "\<not> prefix (js ''sqrt'') letters"
  shows "symbolRun (BACKSLASH # letters) =
     (case map_of LATEX_SYMBOLS (BACKSLASH # letters) of
        Some symbol \<Rightarrow> MathRun symbol
      | None \<Rightarrow> MathRun (BACKSLASH # letters))"
proof (cases "map_of LATEX_SYMBOLS (BACKSLASH # letters)")
  case None
  then show ?thesis by (simp add: symbolRun_def)
next
  case (Some symbol)
  have "symbol \<noteq> []"
  proof
    assume "symbol = []"
    with Some LATEX_SYMBOLS_empty [of "BACKSLASH # letters"]
    have "letters = js ''sqrt'' \<or> letters = js ''frac''" by simp
    with assms show False by auto
  qed
  with Some show ?thesis by (simp add: symbolRun_def)
qed

lemma parse_loop_symbol_command:
  assumes letters: "list_all isAlpha letters"
    and rest: "rest = [] \<or> \<not> isAlpha (hd rest)"
    and nfrac: "\<not> prefix (js ''frac'') letters"
    and nsqrt: "\<not> prefix (js ''sqrt'') letters"
  shows "parse_loop (pre @ BACKSLASH # letters @ rest) (length pre) nodes =
     parse_loop (pre @ BACKSLASH # letters @ rest) (length pre + 1 + length letters)
       (nodes @ [case map_of LATEX_SYMBOLS (BACKSLASH # letters) of
                   Some symbol \<Rightarrow> MathRun symbol
                 | None \<Rightarrow> MathRun (BACKSLASH # letters)])"
proof -
  let ?s = "pre @ BACKSLASH # letters @ rest"
  let ?i = "length pre"
  have lt: "?i < length ?s" and at: "?s ! ?i = BACKSLASH" by simp_all
  have dr: "drop ?i ?s = BACKSLASH # letters @ rest" by simp
  have "list_all isAlpha (js ''frac'')" "list_all isAlpha (js ''sqrt'')"
    by (simp_all add: js_def isAlpha_def)
  then have "\<not> prefix (js ''frac'') (letters @ rest)" "\<not> prefix (js ''sqrt'') (letters @ rest)"
    using prefix_letters_rest [OF _ rest, of _ letters] nfrac nsqrt by simp_all
  then have nf: "\<not> startsWith (drop ?i ?s) (BACKSLASH # js ''frac'')"
    and ns: "\<not> startsWith (drop ?i ?s) (BACKSLASH # js ''sqrt'')"
    by (simp_all add: dr startsWith_prefix)
  have "scanLetters ((pre @ [BACKSLASH]) @ letters @ rest) (length (pre @ [BACKSLASH]))
      = length (pre @ [BACKSLASH]) + length letters"
    using letters rest by (rule scanLetters_run)
  then have e: "scanLetters ?s (?i + 1) = ?i + 1 + length letters" by simp
  have cmd: "slice ?s ?i (?i + 1 + length letters) = BACKSLASH # letters"
    by (simp add: slice_def)
  show ?thesis
    using parse_loop_command [OF lt at nf ns, of nodes] symbolRun_lookup [OF nfrac nsqrt]
    by (simp only: e cmd)
qed

section \<open>A script operator at the end of the input\<close>

lemma scanReaches_le: "scanReaches latex i j \<Longrightarrow> i \<le> j"
  by (subst (asm) scanReaches.simps) (auto split: if_splits)

lemma scanGroup_prefix:
  "scanGroup (t @ r) e d \<le> length t \<Longrightarrow> r \<noteq> [] \<Longrightarrow> scanGroup t e d = scanGroup (t @ r) e d"
proof (induction "t @ r" e d rule: scanGroup.induct)
  case (1 e d)
  let ?s = "t @ r"
  show ?case
  proof (cases "e < length ?s \<and> d > 0")
    case True
    let ?d = "if ?s ! e = LBRACE then d + 1 else if ?s ! e = RBRACE then d - 1 else d"
    have step: "scanGroup ?s e d = scanGroup ?s (e + 1) ?d"
      using True by (subst scanGroup.simps) simp
    with "1.prems"(1) scanGroup_ge [of "e + 1" ?s ?d] have lt: "e < length t" by simp
    then have at: "?s ! e = t ! e" by (simp add: nth_append)
    have "scanGroup t e d = scanGroup t (e + 1) ?d"
      using True lt at by (subst scanGroup.simps) simp
    moreover have "scanGroup t (e + 1) ?d = scanGroup ?s (e + 1) ?d"
      using "1.hyps" [OF True] "1.prems" step by simp
    ultimately show ?thesis using step by simp
  next
    case False
    then have res: "scanGroup ?s e d = e" by (subst scanGroup.simps) auto
    with "1.prems" have "e \<le> length t" "\<not> (e < length t \<and> d > 0)"
      using False by auto
    then have "scanGroup t e d = e" by (subst scanGroup.simps) auto
    with res show ?thesis by simp
  qed
qed

lemma scanLetters_prefix:
  "scanLetters (t @ r) e \<le> length t \<Longrightarrow> r \<noteq> [] \<Longrightarrow> \<not> isAlpha (hd r) \<Longrightarrow>
   scanLetters t e = scanLetters (t @ r) e"
proof (induction "t @ r" e rule: scanLetters.induct)
  case (1 e)
  let ?s = "t @ r"
  show ?case
  proof (cases "e < length ?s \<and> isAlpha (?s ! e)")
    case True
    have step: "scanLetters ?s e = scanLetters ?s (e + 1)"
      using True by (subst scanLetters.simps) simp
    with "1.prems"(1) scanLetters_ge [of "e + 1" ?s] have lt: "e < length t" by simp
    then have at: "?s ! e = t ! e" by (simp add: nth_append)
    have "scanLetters t e = scanLetters t (e + 1)"
      using True lt at by (subst scanLetters.simps) simp
    moreover have "scanLetters t (e + 1) = scanLetters ?s (e + 1)"
      using "1.hyps" [OF True] "1.prems" step by simp
    ultimately show ?thesis using step by simp
  next
    case False
    then have res: "scanLetters ?s e = e" by (subst scanLetters.simps) auto
    with "1.prems"(1) have le: "e \<le> length t" by simp
    have "\<not> (e < length t \<and> isAlpha (t ! e))"
      using False by (auto simp: nth_append)
    then have "scanLetters t e = e" by (subst scanLetters.simps) auto
    with res show ?thesis by simp
  qed
qed

lemma slice_prefix: "b \<le> length t \<Longrightarrow> slice (t @ r) a b = slice t a b"
  by (simp add: slice_def)

lemma getNextUnit_prefix:
  assumes "getNextUnit (t @ r) idx = Some u" "endIndex u \<le> length t" "r \<noteq> []" "\<not> isAlpha (hd r)"
  shows "getNextUnit t idx = Some u"
proof -
  let ?s = "t @ r"
  have lt: "idx < length t"
    using getNextUnit_endIndex [OF assms(1)] assms(2) by simp
  then have at: "?s ! idx = t ! idx" and lts: "idx < length ?s" by (simp_all add: nth_append)
  show ?thesis
  proof (cases "t ! idx = LBRACE")
    case True
    let ?e = "scanGroup ?s (idx + 1) 1"
    have u: "u = \<lparr>content = slice ?s (idx + 1) (?e - 1), endIndex = ?e, isGroup = True\<rparr>"
      using assms(1) True at lts indexOf_at [of idx ?s LBRACE]
      by (simp add: getNextUnit_def extractGroup_def Let_def)
    then have le: "?e \<le> length t" using assms(2) by simp
    then have "scanGroup t (idx + 1) 1 = ?e"
      using assms(3) by (simp add: scanGroup_prefix)
    moreover have "slice ?s (idx + 1) (?e - 1) = slice t (idx + 1) (?e - 1)"
      using le by (simp add: slice_prefix)
    ultimately show ?thesis
      using u True lt indexOf_at [of idx t LBRACE]
      by (simp add: getNextUnit_def extractGroup_def Let_def)
  next
    case nb: False
    show ?thesis
    proof (cases "t ! idx = BACKSLASH")
      case True
      let ?e = "scanLetters ?s (idx + 1)"
      have u: "u = \<lparr>content = slice ?s idx ?e, endIndex = ?e, isGroup = False\<rparr>"
        using assms(1) True at lts by (simp add: getNextUnit_def Let_def)
      then have le: "?e \<le> length t" using assms(2) by simp
      then have "scanLetters t (idx + 1) = ?e"
        using assms(3,4) by (simp add: scanLetters_prefix)
      moreover have "slice ?s idx ?e = slice t idx ?e"
        using le by (simp add: slice_prefix)
      ultimately show ?thesis
        using u True lt by (simp add: getNextUnit_def Let_def)
    next
      case False
      with nb assms(1) at lt lts show ?thesis
        by (simp add: getNextUnit_def)
    qed
  qed
qed

lemma startsWith_drop_prefix:
  "i + length p \<le> length t \<Longrightarrow> startsWith (drop i (t @ r)) p = startsWith (drop i t) p"
  by (simp add: startsWith_def)

lemma startsWith_drop_appendI:
  "startsWith (drop i t) p \<Longrightarrow> i \<le> length t \<Longrightarrow> startsWith (drop i (t @ r)) p"
  by (auto simp: startsWith_prefix prefix_def)

lemma parse_loop_final_operator:
  assumes op: "op = CARET \<or> op = UNDERSCORE"
    and reach: "scanReaches (t @ [op]) i (length t)"
  shows "parse_loop (t @ [op]) i nodes =
     (case parse_loop t i nodes of Inl err \<Rightarrow> Inl err | Inr ns \<Rightarrow> Inr (butlast ns))"
  using reach
proof (induction "length t - i" arbitrary: i nodes rule: less_induct)
  case less
  let ?s = "t @ [op]"
  let ?j = "length t"
  note reach = less.prems
  have nal: "\<not> isAlpha (hd [op])" using op by (auto simp: isAlpha_def)
  have ile: "i \<le> ?j" using reach by (rule scanReaches_le)
  show ?case
  proof (cases "i = ?j")
    case True
    have "parse_loop ?s ?j nodes = Inr (butlast nodes)"
      using parse_loop_script [of ?j ?s nodes] op by (simp add: getNextUnit_def)
    moreover have "parse_loop t ?j nodes = Inr nodes" by (simp add: parse_loop_end)
    ultimately show ?thesis using True by simp
  next
    case False
    with ile have lt: "i < ?j" by simp
    then have lts: "i < length ?s" and at: "?s ! i = t ! i" by (simp_all add: nth_append)
    from reach False lt lts obtain i' where nc: "nextCursor ?s i = Some i'"
      and reach': "scanReaches ?s i' ?j"
      by (subst (asm) scanReaches.simps) (auto split: option.splits)
    have gt: "i < i'" using nc by (rule nextCursor_gt)
    have le': "i' \<le> ?j" using reach' by (rule scanReaches_le)
    have IH: "parse_loop ?s i' ns =
        (case parse_loop t i' ns of Inl err \<Rightarrow> Inl err | Inr ns \<Rightarrow> Inr (butlast ns))" for ns
      using less.hyps [of i' ns] gt lt reach' by simp
    let ?frac = "BACKSLASH # js ''frac''"
    let ?sqrt = "BACKSLASH # js ''sqrt''"
    have len5: "length ?frac = 5" "length ?sqrt = 5" by (simp_all add: js_def)
    consider (space) "t ! i = SPACE"
      | (script) "t ! i = CARET \<or> t ! i = UNDERSCORE"
      | (frac) "t ! i = BACKSLASH" "startsWith (drop i ?s) ?frac"
      | (sqrt) "t ! i = BACKSLASH" "\<not> startsWith (drop i ?s) ?frac" "startsWith (drop i ?s) ?sqrt"
      | (cmd) "t ! i = BACKSLASH" "\<not> startsWith (drop i ?s) ?frac" "\<not> startsWith (drop i ?s) ?sqrt"
      | (brace) "t ! i = LBRACE \<or> t ! i = RBRACE"
      | (char) "t ! i \<noteq> SPACE" "plainChar (t ! i)"
      by (auto simp: plainChar_def)
    then show ?thesis
    proof cases
      case space
      then have "i' = i + 1" using nc at by (simp add: nextCursor_def)
      then show ?thesis
        using IH [of nodes] parse_loop_space [of i ?s nodes] parse_loop_space [of i t nodes]
          space lt lts at by simp
    next
      case script
      then obtain u where u: "getNextUnit ?s (i + 1) = Some u" and i': "i' = endIndex u"
        using nc at by (auto simp: nextCursor_def split: option.splits)
      have ut: "getNextUnit t (i + 1) = Some u"
        using getNextUnit_prefix [OF u] le' i' nal by simp
      show ?thesis
      proof (cases "parse_loop (content u) 0 []")
        case (Inl e)
        then show ?thesis
          using parse_loop_script [of i ?s nodes] parse_loop_script [of i t nodes]
            script lt lts at u ut by simp
      next
        case (Inr sc)
        then show ?thesis
          using parse_loop_script [of i ?s nodes] parse_loop_script [of i t nodes]
            script lt lts at u ut i' IH by simp
      qed
    next
      case frac
      then obtain num den where num: "getNextUnit ?s (i + 5) = Some num"
        and den: "getNextUnit ?s (endIndex num) = Some den" and i': "i' = endIndex den"
        using nc at by (auto simp: nextCursor_def Let_def split: option.splits)
      have led: "endIndex den \<le> ?j" using le' i' by simp
      have "endIndex num < endIndex den" using den by (rule getNextUnit_endIndex)
      with led have len: "endIndex num \<le> ?j" by simp
      have "i + 5 < endIndex num" using num by (rule getNextUnit_endIndex)
      with len have "i + length ?frac \<le> ?j" by (simp add: js_def)
      then have ft: "startsWith (drop i t) ?frac"
        using frac(2) startsWith_drop_prefix [of i ?frac t "[op]"] by simp
      have numt: "getNextUnit t (i + 5) = Some num"
        using getNextUnit_prefix [OF num len] nal by simp
      have dent: "getNextUnit t (endIndex num) = Some den"
        using getNextUnit_prefix [OF den led] nal by simp
      show ?thesis
      proof (cases "parse_loop (content num) 0 []")
        case (Inl e)
        then show ?thesis
          using parse_loop_frac [OF lts frac(2), of nodes] parse_loop_frac [OF lt ft, of nodes]
            num den numt dent by simp
      next
        case n: (Inr n)
        show ?thesis
        proof (cases "parse_loop (content den) 0 []")
          case (Inl e)
          then show ?thesis
            using parse_loop_frac [OF lts frac(2), of nodes] parse_loop_frac [OF lt ft, of nodes]
              num den numt dent n by simp
        next
          case (Inr d)
          then show ?thesis
            using parse_loop_frac [OF lts frac(2), of nodes] parse_loop_frac [OF lt ft, of nodes]
              num den numt dent n i' IH by simp
        qed
      qed
    next
      case sqrt
      then obtain rad where rad: "getNextUnit ?s (i + 5) = Some rad" and i': "i' = endIndex rad"
        using nc at by (auto simp: nextCursor_def Let_def split: option.splits)
      have ler: "endIndex rad \<le> ?j" using le' i' by simp
      have "i + 5 < endIndex rad" using rad by (rule getNextUnit_endIndex)
      with ler have "i + length ?sqrt \<le> ?j" by (simp add: js_def)
      then have st: "startsWith (drop i t) ?sqrt"
        using sqrt(3) startsWith_drop_prefix [of i ?sqrt t "[op]"] by simp
      have radt: "getNextUnit t (i + 5) = Some rad"
        using getNextUnit_prefix [OF rad ler] nal by simp
      show ?thesis
      proof (cases "parse_loop (content rad) 0 []")
        case (Inl e)
        then show ?thesis
          using parse_loop_sqrt [OF lts sqrt(3), of nodes] parse_loop_sqrt [OF lt st, of nodes]
            rad radt by simp
      next
        case (Inr c)
        then show ?thesis
          using parse_loop_sqrt [OF lts sqrt(3), of nodes] parse_loop_sqrt [OF lt st, of nodes]
            rad radt i' IH by simp
      qed
    next
      case cmd
      have i': "i' = scanLetters ?s (i + 1)"
        using nc at cmd by (simp add: nextCursor_def Let_def)
      have nft: "\<not> startsWith (drop i t) ?frac" and nst: "\<not> startsWith (drop i t) ?sqrt"
        using cmd(2,3) startsWith_drop_appendI [of i t _ "[op]"] lt by auto
      have e: "scanLetters t (i + 1) = i'"
        using scanLetters_prefix [of t "[op]" "i + 1"] le' i' nal by simp
      have sl: "slice ?s i i' = slice t i i'"
        using le' by (simp add: slice_prefix)
      have "parse_loop ?s i nodes = parse_loop ?s i' (nodes @ [symbolRun (slice t i i')])"
        using parse_loop_command [OF lts _ cmd(2,3), of nodes] at cmd(1) i' sl by simp
      moreover have "parse_loop t i nodes = parse_loop t i' (nodes @ [symbolRun (slice t i i')])"
        using parse_loop_command [OF lt cmd(1) nft nst, of nodes] e by simp
      ultimately show ?thesis using IH by simp
    next
      case brace
      then have "i' = i + 1" using nc at by (auto simp: nextCursor_def)
      then show ?thesis
        using IH [of nodes] parse_loop_brace [of i ?s nodes] parse_loop_brace [of i t nodes]
          brace lt lts at by simp
    next
      case char
      then have "i' = i + 1" using nc at by (auto simp: nextCursor_def plainChar_def)
      then show ?thesis
        using IH [of "nodes @ [MathRun [t ! i]]"] parse_loop_char [of i ?s nodes]
          parse_loop_char [of i t nodes] char lt lts at by simp
    qed
  qed
qed

section \<open>Groups\<close>

lemma indexOf_None_iff: "indexOf s c k = None \<longleftrightarrow> c \<notin> set (drop k s)"
proof (induction s c k rule: indexOf.induct)
  case (1 s c k)
  show ?case
  proof (cases "k < length s")
    case False
    then show ?thesis by (subst indexOf.simps) simp
  next
    case True
    then have dr: "drop k s = s ! k # drop (Suc k) s"
      by (simp add: Cons_nth_drop_Suc)
    show ?thesis
    proof (cases "s ! k = c")
      case eq: True
      with True dr show ?thesis by (subst indexOf.simps) simp
    next
      case neq: False
      have "indexOf s c k = indexOf s c (Suc k)"
        using True neq by (subst indexOf.simps) simp
      with "1" [OF True neq] dr neq show ?thesis by auto
    qed
  qed
qed

lemma scanGroup_at_end: "\<not> end < length str \<Longrightarrow> scanGroup str end depth = end"
  by (subst scanGroup.simps) simp

lemma scanGroup_never_closed:
  "\<forall>pre. prefix pre (drop e str) \<longrightarrow> closes pre < depth + opens pre \<Longrightarrow> e \<le> length str \<Longrightarrow>
   scanGroup str e depth = length str"
proof (induction "length str - e" arbitrary: e depth)
  case 0
  then show ?case by (simp add: scanGroup_at_end)
next
  case (Suc n)
  then have lt: "e < length str" by simp
  have pos: "0 < depth"
    using Suc.prems(1) by (auto simp: closes_def opens_def dest: spec [of _ "[]"])
  let ?c = "str ! e"
  let ?d = "if ?c = LBRACE then depth + 1 else if ?c = RBRACE then depth - 1 else depth"
  have dr: "drop e str = ?c # drop (e + 1) str"
    using lt by (simp add: Cons_nth_drop_Suc)
  have step: "scanGroup str e depth = scanGroup str (e + 1) ?d"
    using lt pos by (subst scanGroup.simps) simp
  have inv: "\<forall>pre. prefix pre (drop (e + 1) str) \<longrightarrow> closes pre < ?d + opens pre"
  proof (intro allI impI)
    fix pre
    assume "prefix pre (drop (e + 1) str)"
    then have "prefix (?c # pre) (drop e str)" by (simp add: dr)
    with Suc.prems(1) have "closes (?c # pre) < depth + opens (?c # pre)" by blast
    then show "closes pre < ?d + opens pre"
      using pos by (auto simp: closes_def opens_def split: if_splits)
  qed
  show ?case
    using Suc.hyps(1) [of "e + 1" ?d] Suc.hyps(2) inv lt step by simp
qed

lemma extractGroup_never_closed:
  assumes "neverClosed str start"
  shows "extractGroup str start =
     \<lparr>content = butlast (drop (start + 1) str), endIndex = length str\<rparr>"
proof -
  from assms have lt: "start < length str" and at: "str ! start = LBRACE"
    and pre: "\<forall>pre. prefix pre (drop (start + 1) str) \<longrightarrow> closes pre \<le> opens pre"
    by (auto simp: neverClosed_def list_all_iff in_set_prefixes)
  have "scanGroup str (start + 1) 1 = length str"
    using pre lt by (intro scanGroup_never_closed) (auto simp: less_Suc_eq_le)
  moreover have "slice str (start + 1) (length str - 1) = butlast (drop (start + 1) str)"
    by (simp add: slice_def butlast_conv_take)
  ultimately show ?thesis
    using indexOf_at [OF lt at] by (simp add: extractGroup_def)
qed

section \<open>The fallback loop\<close>

lemma tryModels_first_success:
  "list_all (\<lambda>x. isl (attempt x)) pre \<Longrightarrow> attempt m = Inr txt \<Longrightarrow>
   tryModels attempt (pre @ m # post) lastError = Inr txt"
proof (induction pre arbitrary: lastError)
  case Nil
  then show ?case by simp
next
  case (Cons x pre)
  then obtain e where "attempt x = Inl e" by (cases "attempt x") auto
  with Cons show ?case by simp
qed

lemma tryModels_all_fail:
  "list_all (\<lambda>x. isl (attempt x)) ms \<Longrightarrow> ms \<noteq> [] \<Longrightarrow>
   tryModels attempt ms lastError =
     Inl (case attempt (last ms) of
            Inl (ErrorObject msg) \<Rightarrow> ErrorObject msg
          | _ \<Rightarrow> allAttemptsFailed)"
proof (induction ms arbitrary: lastError)
  case Nil
  then show ?case by simp
next
  case (Cons x ms)
  then obtain e where e: "attempt x = Inl e" by (cases "attempt x") auto
  show ?case
  proof (cases "ms = []")
    case True
    with e show ?thesis by (cases e) simp_all
  next
    case False
    with Cons e show ?thesis by simp
  qed
qed

section \<open>Splitting a line and assembling the paragraph\<close>

lemma replaceFirst_at_start:
  "startsWith line pat \<Longrightarrow> replaceFirst pat rep line = rep @ drop (length pat) line"
  by (cases line) (auto simp: startsWith_def)

lemma takeWhile_take_short:
  "length (takeWhile P (take m ys)) < length (take m ys) \<Longrightarrow>
   takeWhile P ys = takeWhile P (take m ys)"
proof (induction ys arbitrary: m)
  case Nil
  then show ?case by simp
next
  case (Cons y ys)
  then show ?case by (cases m) (auto split: if_splits)
qed

lemma matchMath_SomeD:
  assumes "matchMath s q = Some (cap, e)"
  shows "drop q s = DOLLAR # cap @ DOLLAR # drop e s" and "cap \<noteq> []" and "DOLLAR \<notin> set cap"
    and "e = q + length cap + 2" and "e \<le> length s"
proof -
  let ?P = "\<lambda>c. c \<noteq> DOLLAR"
  let ?xs = "drop (q + 1) s"
  from assms have lt: "q < length s" and at: "s ! q = DOLLAR"
    and cap: "cap = takeWhile ?P ?xs" and ne: "cap \<noteq> []"
    and e: "e = q + 1 + length cap + 1" and le: "q + 1 + length cap < length s"
    by (auto simp: matchMath_def Let_def split: if_splits)
  show "cap \<noteq> []" by (rule ne)
  show "DOLLAR \<notin> set cap" using cap by (auto dest: set_takeWhileD)
  show "e = q + length cap + 2" using e by simp
  show "e \<le> length s" using e le by simp
  have len: "length cap < length ?xs" using le by simp
  then have dw: "dropWhile ?P ?xs \<noteq> []"
    using cap by (metis append_Nil2 less_irrefl takeWhile_dropWhile_id)
  then have "\<not> ?P (hd (dropWhile ?P ?xs))" by (rule hd_dropWhile)
  then have "dropWhile ?P ?xs = DOLLAR # tl (dropWhile ?P ?xs)"
    using dw by (cases "dropWhile ?P ?xs") auto
  moreover have "dropWhile ?P ?xs = drop (length cap) ?xs"
    using cap by (simp add: dropWhile_eq_drop)
  ultimately have "drop (length cap) ?xs = DOLLAR # drop (Suc (length cap)) ?xs"
    by (metis drop_Suc tl_drop)
  then have "?xs = cap @ DOLLAR # drop e s"
    using cap e by (metis (no_types, lifting) Suc_eq_plus1 add.commute add_Suc_right drop_drop
        takeWhile_dropWhile_id \<open>dropWhile ?P ?xs = drop (length cap) ?xs\<close>)
  then show "drop q s = DOLLAR # cap @ DOLLAR # drop e s"
    using lt at by (metis Cons_nth_drop_Suc Suc_eq_plus1)
qed

lemma matchMath_drop:
  "matchMath (drop p s) k = None \<longleftrightarrow> matchMath s (p + k) = None"
proof -
  have "drop (k + 1) (drop p s) = drop (p + k + 1) s"
    by (simp add: add.commute add.left_commute)
  moreover have "(drop p s) ! k = s ! (p + k)" if "p + k < length s"
    using that by simp
  moreover have "k < length s - p \<longleftrightarrow> p + k < length s" by auto
  moreover have "k + 1 + n < length s - p \<longleftrightarrow> p + k + 1 + n < length s" for n by auto
  ultimately show ?thesis
    by (auto simp: matchMath_def Let_def)
qed

lemma matchMath_take:
  assumes "matchMath (take n xs) k = Some (cap, e)"
  shows "matchMath xs k = Some (cap, e)"
proof -
  let ?P = "\<lambda>c. c \<noteq> DOLLAR"
  let ?ys = "drop (k + 1) xs"
  from assms have lt: "k < length (take n xs)" and at: "take n xs ! k = DOLLAR"
    and cap: "cap = takeWhile ?P (drop (k + 1) (take n xs))" and ne: "cap \<noteq> []"
    and e: "e = k + 1 + length cap + 1" and le: "k + 1 + length cap < length (take n xs)"
    by (auto simp: matchMath_def Let_def split: if_splits)
  have dt: "drop (k + 1) (take n xs) = take (n - (k + 1)) ?ys"
    by (simp add: drop_take)
  have "length (takeWhile ?P (take (n - (k + 1)) ?ys)) < length (take (n - (k + 1)) ?ys)"
    using le unfolding cap dt by simp arith
  then have "takeWhile ?P ?ys = cap"
    using cap dt takeWhile_take_short [of ?P "n - (k + 1)" ?ys] by simp
  moreover have "k < length xs" "xs ! k = DOLLAR" "k + 1 + length cap < length xs"
    using lt at le by simp_all
  ultimately show ?thesis
    using ne e by (simp add: matchMath_def Let_def)
qed

lemma hasSegment_iff: "hasSegment t \<longleftrightarrow> (\<exists>k<length t. matchMath t k \<noteq> None)"
  unfolding hasSegment_def list_ex_iff set_upt by (auto simp: Bex_def)

lemma no_segment_slice:
  assumes "\<forall>q'. p \<le> q' \<and> q' < q \<longrightarrow> matchMath s q' = None"
  shows "\<not> hasSegment (slice s p q)"
proof
  assume "hasSegment (slice s p q)"
  then obtain k where k: "k < length (slice s p q)" and m: "matchMath (slice s p q) k \<noteq> None"
    by (auto simp: hasSegment_iff)
  from m obtain cap e where "matchMath (take (q - p) (drop p s)) k = Some (cap, e)"
    unfolding slice_def by (cases "matchMath (take (q - p) (drop p s)) k") auto
  then have "matchMath (drop p s) k = Some (cap, e)"
    by (rule matchMath_take)
  then have "matchMath (drop p s) k \<noteq> None"
    by simp
  then have "matchMath s (p + k) \<noteq> None"
    by (simp add: matchMath_drop)
  moreover have "p + k < q" using k by (simp add: slice_def, arith)
  ultimately show False using assms by auto
qed

lemma splitLoop_weave: "p \<le> q \<Longrightarrow> weave (splitLoop s p q) = drop p s"
proof (induction s p q rule: splitLoop.induct)
  case (1 s p q)
  show ?case
  proof (cases "q < length s")
    case False
    then show ?thesis by (subst splitLoop.simps) (simp add: slice_def)
  next
    case lt: True
    show ?thesis
    proof (cases "matchMath s q")
      case None
      with lt "1.IH"(1) "1.prems" show ?thesis
        by (subst splitLoop.simps) simp
    next
      case (Some ce)
      obtain cap e where ce: "ce = (cap, e)" by (cases ce)
      note m = Some [unfolded ce]
      have ne: "e \<noteq> p" and qe: "q < e"
        using matchMath_gt [OF m] "1.prems" by simp_all
      have "weave (splitLoop s e e) = drop e s"
        using "1.IH"(3) [OF lt m refl ne] by simp
      moreover have "drop p s = slice s p q @ drop q s"
        using "1.prems"
        by (metis append_take_drop_id drop_drop le_add_diff_inverse2 slice_def)
      moreover note matchMath_SomeD(1) [OF m]
      ultimately show ?thesis
        using lt m ne by (subst splitLoop.simps) simp
    qed
  qed
qed

lemma splitLoop_alternating:
  "p \<le> q \<Longrightarrow> \<forall>q'. p \<le> q' \<and> q' < q \<longrightarrow> matchMath s q' = None \<Longrightarrow>
   alternating (\<lambda>t. \<not> hasSegment t) (\<lambda>m. m \<noteq> [] \<and> DOLLAR \<notin> set m) (splitLoop s p q)"
proof (induction s p q rule: splitLoop.induct)
  case (1 s p q)
  note inv = "1.prems"(2)
  show ?case
  proof (cases "q < length s")
    case False
    have "\<forall>q'. p \<le> q' \<and> q' < length s \<longrightarrow> matchMath s q' = None"
      using inv False by auto
    then have "\<not> hasSegment (slice s p (length s))" by (rule no_segment_slice)
    with False show ?thesis by (subst splitLoop.simps) simp
  next
    case lt: True
    show ?thesis
    proof (cases "matchMath s q")
      case None
      have "\<forall>q'. p \<le> q' \<and> q' < q + 1 \<longrightarrow> matchMath s q' = None"
        using inv None by (auto simp: less_Suc_eq)
      with lt None "1.IH"(1) "1.prems"(1) show ?thesis
        by (subst splitLoop.simps) simp
    next
      case (Some ce)
      obtain cap e where ce: "ce = (cap, e)" by (cases ce)
      note m = Some [unfolded ce]
      have ne: "e \<noteq> p"
        using matchMath_gt [OF m] "1.prems"(1) by simp
      have "\<forall>q'. e \<le> q' \<and> q' < e \<longrightarrow> matchMath s q' = None"
        by auto
      then have "alternating (\<lambda>t. \<not> hasSegment t) (\<lambda>m. m \<noteq> [] \<and> DOLLAR \<notin> set m) (splitLoop s e e)"
        using "1.IH"(3) [OF lt m refl ne] by blast
      moreover have "\<not> hasSegment (slice s p q)"
        using inv by (rule no_segment_slice)
      moreover note matchMath_SomeD(2,3) [OF m]
      ultimately show ?thesis
        using lt m ne by (subst splitLoop.simps) simp
    qed
  qed
qed

lemma splitMath_weave: "weave (splitMath s) = s"
  using splitLoop_weave [of 0 0 s] by (simp add: splitMath_def)

lemma splitMath_alternating:
  "alternating (\<lambda>t. \<not> hasSegment t) (\<lambda>m. m \<noteq> [] \<and> DOLLAR \<notin> set m) (splitMath s)"
  using splitLoop_alternating [of 0 0 s] by (simp add: splitMath_def hasSegment_def)

lemma mapParts_parity: "mapParts (index + 2) parts = mapParts index parts"
proof (induction parts arbitrary: index)
  case Nil
  show ?case by simp
next
  case (Cons part rest)
  have eq: "mapParts (index + 2 + 1) rest = mapParts (index + 1) rest"
    using Cons [of "index + 1"] by (simp add: add.commute add.left_commute)
  show ?case unfolding mapParts.simps eq by simp
qed

lemma mapParts_text_math:
  "mapParts 0 (t # m # rest) =
     (case createMathParagraph m of
        Inl err \<Rightarrow> Inl err
      | Inr zone \<Rightarrow>
          (case mapParts 0 rest of
             Inl err \<Rightarrow> Inl err
           | Inr els \<Rightarrow> Inr (TextRun t False 24 # zone # els)))"
  using mapParts_parity [of 0 rest]
  by (simp split: sum.splits)

lemma mapParts_assembled: "mapParts 0 parts = Inr els \<longleftrightarrow> assembled parts els"
proof (induction parts arbitrary: els rule: weave.induct)
  case 1
  show ?case by auto
next
  case (2 t)
  show ?case by auto
next
  case (3 t m rest)
  show ?case
    unfolding mapParts_text_math
    by (auto simp: "3.IH" [symmetric] split: sum.splits list.splits)
qed

lemma mapParts_returns:
  "(\<exists>els. mapParts 0 parts = Inr els) \<longleftrightarrow> list_all parses (mathParts parts)"
proof (induction parts rule: weave.induct)
  case 1
  show ?case by simp
next
  case (2 t)
  show ?case by simp
next
  case (3 t m rest)
  show ?case
    unfolding mapParts_text_math
    using "3.IH" by (auto simp: parses_def createMathParagraph_def split: sum.splits)
qed

lemma lineParagraph_body:
  assumes "\<not> startsWith line (js ''## '')"
  shows "lineParagraph line = Inr par \<longleftrightarrow>
     (\<exists>els. par = Paragraph els 120 120 \<and> assembled (splitMath line) els)"
  using assms
  by (auto simp: lineParagraph_def Let_def mapParts_assembled [symmetric] split: sum.splits)

lemma lineParagraph_returns:
  assumes "\<not> startsWith line (js ''## '')"
  shows "(\<exists>par. lineParagraph line = Inr par) \<longleftrightarrow> list_all parses (mathParts (splitMath line))"
  using assms mapParts_returns [of "splitMath line"]
  by (auto simp: lineParagraph_def Let_def split: sum.splits)

lemma lineParagraph_structure:
  "(startsWith heading (js ''## '') \<longrightarrow>
      lineParagraph heading = Inr (Paragraph [TextRun (drop 3 heading) True 32] 200 100))
   \<and> (\<not> startsWith line (js ''## '') \<longrightarrow>
      alternating (\<lambda>t. \<not> hasSegment t) (\<lambda>m. m \<noteq> [] \<and> DOLLAR \<notin> set m) (splitMath line)
      \<and> weave (splitMath line) = line
      \<and> (lineParagraph line = Inr par \<longleftrightarrow>
           (\<exists>els. par = Paragraph els 120 120 \<and> assembled (splitMath line) els))
      \<and> ((\<exists>p. lineParagraph line = Inr p) \<longleftrightarrow> list_all parses (mathParts (splitMath line))))"
proof -
  have "lineParagraph heading = Inr (Paragraph [TextRun (drop 3 heading) True 32] 200 100)"
    if "startsWith heading (js ''## '')"
    using that replaceFirst_at_start [OF that, of "[]"]
    by (simp add: lineParagraph_def js_def numeral_3_eq_3)
  then show ?thesis
    using splitMath_alternating [of line] splitMath_weave [of line]
      lineParagraph_body [of line par] lineParagraph_returns [of line]
    by blast
qed

section \<open>Evaluation on concrete inputs\<close>

lemmas parser_eval =
  parseLatexNodes_def parse_loop.simps getNextUnit_def extractGroup_def
  scanGroup.simps scanLetters.simps indexOf.simps slice_def startsWith_def js_def
  isAlpha_def symbolRun_def LATEX_SYMBOLS_def Let_def

lemmas assembly_eval =
  lineParagraph_def splitMath_def splitLoop.simps matchMath_def createMathParagraph_def
  parses_def hasSegment_def

lemmas scan_eval = scanReaches.simps nextCursor_def

section \<open>Claims\<close>

text \<open>
  C1.  The claim: the parser is total and never raises; a \<open>\frac\<close> or \<open>\sqrt\<close> that
  reaches the end of the input before its operands is a silent truncation.  The code does
  otherwise: \<open>getNextUnit\<close> returns \<open>null\<close> at the end of the input, the script branch
  tests for it (\<open>if (!nextInfo) break\<close>), the \<open>\frac\<close> and \<open>\sqrt\<close> branches read
  \<open>num.endIndex\<close>, \<open>den.endIndex\<close> and \<open>rad.endIndex\<close> without the test, and the read
  raises a TypeError.  The inputs \<open>\frac\<close>, \<open>\frac1\<close> and \<open>\sqrt\<close> raise, also as the
  operand of a script (\<open>x^\sqrt\<close>).
\<close>

theorem parseLatexNodes_raises_at_missing_operand:
  "parseLatexNodes (BACKSLASH # js ''frac'') = Inl TypeError
   \<and> parseLatexNodes (BACKSLASH # js ''frac1'') = Inl TypeError
   \<and> parseLatexNodes (BACKSLASH # js ''sqrt'') = Inl TypeError
   \<and> parseLatexNodes (js ''x^'' @ BACKSLASH # js ''sqrt'') = Inl TypeError"
  by (simp add: parser_eval)

text \<open>
  C2.  The claim: for every input in which \<open>\frac\<close> is followed by two units, the parser
  takes exactly the two units, parses the text of each and emits one fraction node.  The
  branch passes the text of each unit to the parser itself, and the parser raises a
  TypeError on a text in which \<open>\frac\<close> or \<open>\sqrt\<close> lacks an operand (C1).  In
  \<open>\frac{\sqrt}{2}\<close> both units are there, the groups \<open>\sqrt\<close> and \<open>2\<close>; parsing the
  first raises and no fraction node is emitted.  The same happens for \<open>x^\frac{1}{2}\<close>,
  where the script operator takes the command \<open>\frac\<close> alone as its unit.  Where both
  operands parse, the branch does what the claim says (\<open>parse_loop_frac\<close>):
  \<open>parse("\frac{1}{2}")\<close> is the single fraction of \<open>Run("1")\<close> over \<open>Run("2")\<close>, and
  in \<open>a\frac1{bc}d\<close> the two units are \<open>1\<close> and \<open>{bc}\<close>.
\<close>

theorem frac_operand_raises:
  "getNextUnit (BACKSLASH # js ''frac{'' @ BACKSLASH # js ''sqrt}{2}'') 5
     = Some \<lparr>content = BACKSLASH # js ''sqrt'', endIndex = 12, isGroup = True\<rparr>
   \<and> getNextUnit (BACKSLASH # js ''frac{'' @ BACKSLASH # js ''sqrt}{2}'') 12
     = Some \<lparr>content = js ''2'', endIndex = 15, isGroup = True\<rparr>
   \<and> parseLatexNodes (BACKSLASH # js ''frac{'' @ BACKSLASH # js ''sqrt}{2}'') = Inl TypeError
   \<and> parseLatexNodes (js ''x^'' @ BACKSLASH # js ''frac{1}{2}'') = Inl TypeError
   \<and> parseLatexNodes (BACKSLASH # js ''frac{1}{2}'') =
       Inr [MathFraction [MathRun (js ''1'')] [MathRun (js ''2'')]]
   \<and> parseLatexNodes (js ''a'' @ BACKSLASH # js ''frac1{bc}d'') =
       Inr [MathRun (js ''a''),
            MathFraction [MathRun (js ''1'')] [MathRun (js ''b''), MathRun (js ''c'')],
            MathRun (js ''d'')]"
  by (simp add: parser_eval)

text \<open>
  C3.  Every script node that the parser produces, at any depth of the result, has a base
  that is not empty.  At a script operator the node appended last is popped and becomes the
  one-element base; on an empty node list the base is the empty run, and nothing is raised
  for it (the second part: the loop goes on with the script node once the operand is
  parsed).  \<open>parse("^2")\<close> is one superscript node with base \<open>Run("")\<close>.
\<close>

theorem script_base_never_empty:
  "(parseLatexNodes s = Inr out \<longrightarrow> list_all scriptBasesNonEmpty out)
   \<and> (i < length s \<and> (s ! i = CARET \<or> s ! i = UNDERSCORE)
        \<and> getNextUnit s (i + 1) = Some u \<and> parseLatexNodes (content u) = Inr sc \<longrightarrow>
      parse_loop s i nodes =
        parse_loop s (endIndex u)
          (butlast nodes @
           [if s ! i = CARET
            then MathSuperScript [if nodes = [] then MathRun [] else last nodes] sc
            else MathSubScript [if nodes = [] then MathRun [] else last nodes] sc]))
   \<and> parseLatexNodes (js ''^2'') = Inr [MathSuperScript [MathRun []] [MathRun (js ''2'')]]"
proof -
  have "list_all scriptBasesNonEmpty out" if "parseLatexNodes s = Inr out"
    using parse_loop_scriptBases [of "[]" s 0 out] that by (simp add: parseLatexNodes_def)
  moreover have "parse_loop s i nodes =
        parse_loop s (endIndex u)
          (butlast nodes @
           [if s ! i = CARET
            then MathSuperScript [if nodes = [] then MathRun [] else last nodes] sc
            else MathSubScript [if nodes = [] then MathRun [] else last nodes] sc])"
    if "i < length s" "s ! i = CARET \<or> s ! i = UNDERSCORE"
      "getNextUnit s (i + 1) = Some u" "parseLatexNodes (content u) = Inr sc"
    using parse_loop_script [OF that(1,2), of nodes] that(3,4)
    by (simp add: parseLatexNodes_def)
  moreover have "parseLatexNodes (js ''^2'') =
      Inr [MathSuperScript [MathRun []] [MathRun (js ''2'')]]"
    by (simp add: parser_eval)
  ultimately show ?thesis by blast
qed

theorem script_base_never_empty_witness:
  "parseLatexNodes (js ''_a^2'') =
      Inr [MathSuperScript [MathSubScript [MathRun []] [MathRun (js ''a'')]] [MathRun (js ''2'')]]
   \<and> list_all scriptBasesNonEmpty
        [MathSuperScript [MathSubScript [MathRun []] [MathRun (js ''a'')]] [MathRun (js ''2'')]]
   \<and> (0 < length (js ''_a^2'') \<and> (js ''_a^2'' ! 0 = CARET \<or> js ''_a^2'' ! 0 = UNDERSCORE)
        \<and> getNextUnit (js ''_a^2'') (0 + 1) = Some \<lparr>content = js ''a'', endIndex = 2, isGroup = False\<rparr>
        \<and> parseLatexNodes (content \<lparr>content = js ''a'', endIndex = 2, isGroup = False\<rparr>)
            = Inr [MathRun (js ''a'')])
   \<and> parse_loop (js ''_a^2'') 0 [] =
        parse_loop (js ''_a^2'') 2 [MathSubScript [MathRun []] [MathRun (js ''a'')]]"
  using script_base_never_empty [of "js ''_a^2''"
      "[MathSuperScript [MathSubScript [MathRun []] [MathRun (js ''a'')]] [MathRun (js ''2'')]]"
      0 "\<lparr>content = js ''a'', endIndex = 2, isGroup = False\<rparr>" "[MathRun (js ''a'')]" "[]"]
  by (simp add: parser_eval)

text \<open>
  C4.  The claim: every command made of the escape marker and letters, other than \<open>\frac\<close>
  and \<open>\sqrt\<close>, is looked up in the symbol table and yields \<open>Run(symbol)\<close> on a hit and
  \<open>Run(commandText)\<close> on a miss.  The structural commands are detected with
  \<open>startsWith\<close>, so a command whose name only begins with \<open>frac\<close> or \<open>sqrt\<close> is taken
  as the structural command followed by operands: \<open>\fracab\<close> is the fraction of \<open>a\<close> over
  \<open>b\<close> (the counterexample).  The statement holds for every command whose name does not
  begin with \<open>frac\<close> or \<open>sqrt\<close>, at any position of any input; \<open>letters\<close> is the whole
  name, the text after it starting with no letter.
\<close>

theorem symbol_command_lookup:
  "(list_all isAlpha letters \<and> (rest = [] \<or> \<not> isAlpha (hd rest))
        \<and> \<not> prefix (js ''frac'') letters \<and> \<not> prefix (js ''sqrt'') letters \<longrightarrow>
      parse_loop (pre @ BACKSLASH # letters @ rest) (length pre) nodes =
        parse_loop (pre @ BACKSLASH # letters @ rest) (length pre + 1 + length letters)
          (nodes @ [case map_of LATEX_SYMBOLS (BACKSLASH # letters) of
                      Some symbol \<Rightarrow> MathRun symbol
                    | None \<Rightarrow> MathRun (BACKSLASH # letters)]))
   \<and> (list_all isAlpha letters
        \<and> \<not> prefix (js ''frac'') letters \<and> \<not> prefix (js ''sqrt'') letters \<longrightarrow>
      parseLatexNodes (BACKSLASH # letters) =
        Inr [case map_of LATEX_SYMBOLS (BACKSLASH # letters) of
               Some symbol \<Rightarrow> MathRun symbol
             | None \<Rightarrow> MathRun (BACKSLASH # letters)])
   \<and> parseLatexNodes (BACKSLASH # js ''alpha'') = Inr [MathRun [0x03B1]]
   \<and> parseLatexNodes (BACKSLASH # js ''unknowncmd'') = Inr [MathRun (BACKSLASH # js ''unknowncmd'')]"
proof -
  have "parseLatexNodes (BACKSLASH # letters) =
        Inr [case map_of LATEX_SYMBOLS (BACKSLASH # letters) of
               Some symbol \<Rightarrow> MathRun symbol
             | None \<Rightarrow> MathRun (BACKSLASH # letters)]"
    if "list_all isAlpha letters" "\<not> prefix (js ''frac'') letters" "\<not> prefix (js ''sqrt'') letters"
    using parse_loop_symbol_command [OF that(1) _ that(2,3), of "[]" "[]" "[]"]
    by (simp add: parseLatexNodes_def parse_loop_end)
  moreover have "parseLatexNodes (BACKSLASH # js ''alpha'') = Inr [MathRun [0x03B1]]"
    by (simp add: parser_eval)
  moreover have "parseLatexNodes (BACKSLASH # js ''unknowncmd'') =
      Inr [MathRun (BACKSLASH # js ''unknowncmd'')]"
    by (simp add: parser_eval)
  ultimately show ?thesis
    using parse_loop_symbol_command [of letters rest pre nodes] by blast
qed

theorem symbol_command_lookup_witness:
  "(list_all isAlpha (js ''pi'') \<and> (js ''+1'' = [] \<or> \<not> isAlpha (hd (js ''+1'')))
      \<and> \<not> prefix (js ''frac'') (js ''pi'') \<and> \<not> prefix (js ''sqrt'') (js ''pi''))
   \<and> parse_loop (js ''2'' @ BACKSLASH # js ''pi'' @ js ''+1'') (length (js ''2'')) [MathRun (js ''2'')] =
       parse_loop (js ''2'' @ BACKSLASH # js ''pi'' @ js ''+1'') (length (js ''2'') + 1 + length (js ''pi''))
         [MathRun (js ''2''), MathRun [0x03C0]]
   \<and> parseLatexNodes (BACKSLASH # js ''pi'') = Inr [MathRun [0x03C0]]"
proof -
  have h: "list_all isAlpha (js ''pi'') \<and> (js ''+1'' = [] \<or> \<not> isAlpha (hd (js ''+1'')))
      \<and> \<not> prefix (js ''frac'') (js ''pi'') \<and> \<not> prefix (js ''sqrt'') (js ''pi'')"
    by (simp add: js_def isAlpha_def)
  have tbl: "map_of LATEX_SYMBOLS (BACKSLASH # js ''pi'') = Some [0x03C0]"
    by (simp add: LATEX_SYMBOLS_def js_def)
  show ?thesis
    using symbol_command_lookup [of "js ''pi''" "js ''+1''" "js ''2''" "[MathRun (js ''2'')]"] h
    by (simp add: tbl)
qed

theorem symbol_command_lookup_counterexample:
  "list_all isAlpha (js ''fracab'')
   \<and> BACKSLASH # js ''fracab'' \<noteq> BACKSLASH # js ''frac''
   \<and> BACKSLASH # js ''fracab'' \<noteq> BACKSLASH # js ''sqrt''
   \<and> map_of LATEX_SYMBOLS (BACKSLASH # js ''fracab'') = None
   \<and> parseLatexNodes (BACKSLASH # js ''fracab'')
       = Inr [MathFraction [MathRun (js ''a'')] [MathRun (js ''b'')]]
   \<and> parseLatexNodes (BACKSLASH # js ''fracab'') \<noteq> Inr [MathRun (BACKSLASH # js ''fracab'')]"
  by (simp add: parser_eval)

text \<open>
  C5.  The claim: at a group-open marker with no matching close marker in the rest of the
  string, the helper returns empty content and advances the cursor by one.  The code returns
  empty content with \<open>startIndex + 1\<close> when \<open>indexOf\<close> finds no group-open marker from the
  cursor on, a case that \<open>getNextUnit\<close> never produces since it calls \<open>extractGroup\<close> at a
  group-open marker.  At a group-open marker that is not closed the scan runs to the end of
  the input: for \<open>{ab\<close> the content is \<open>a\<close> and the cursor moves by three (the
  counterexample).  What the claim says holds when no group-open marker occurs from the
  cursor on, and at a group-open marker that is the last unit of the input.
\<close>

theorem group_fail_soft:
  "(LBRACE \<notin> set (drop startIndex str) \<longrightarrow>
      extractGroup str startIndex = \<lparr>content = [], endIndex = startIndex + 1\<rparr>)
   \<and> (start < length latex \<and> latex ! start = LBRACE \<and> start + 1 = length latex \<longrightarrow>
      extractGroup latex start = \<lparr>content = [], endIndex = start + 1\<rparr>
      \<and> getNextUnit latex start = Some \<lparr>content = [], endIndex = start + 1, isGroup = True\<rparr>)"
proof -
  have a: "extractGroup str startIndex = \<lparr>content = [], endIndex = startIndex + 1\<rparr>"
    if "LBRACE \<notin> set (drop startIndex str)"
    using that indexOf_None_iff [of str LBRACE startIndex] by (simp add: extractGroup_def)
  have b: "extractGroup latex start = \<lparr>content = [], endIndex = start + 1\<rparr>"
    if "start < length latex" "latex ! start = LBRACE" "start + 1 = length latex"
    using indexOf_at [OF that(1,2)] scanGroup_at_end [of "start + 1" latex 1] that(3)
    by (simp add: extractGroup_def slice_def)
  have "getNextUnit latex start = Some \<lparr>content = [], endIndex = start + 1, isGroup = True\<rparr>"
    if "start < length latex" "latex ! start = LBRACE" "start + 1 = length latex"
    using b [OF that] that by (simp add: getNextUnit_def)
  with a b show ?thesis by blast
qed

theorem group_fail_soft_witness:
  "LBRACE \<notin> set (drop 1 (js ''{ab''))
   \<and> extractGroup (js ''{ab'') 1 = \<lparr>content = [], endIndex = 2\<rparr>
   \<and> (2 < length (js ''ab{'') \<and> js ''ab{'' ! 2 = LBRACE \<and> 2 + 1 = length (js ''ab{''))
   \<and> extractGroup (js ''ab{'') 2 = \<lparr>content = [], endIndex = 3\<rparr>
   \<and> getNextUnit (js ''ab{'') 2 = Some \<lparr>content = [], endIndex = 3, isGroup = True\<rparr>"
  using group_fail_soft [of 1 "js ''{ab''" 2 "js ''ab{''"]
  by (simp add: js_def)

theorem group_without_close_counterexample:
  "neverClosed (js ''{ab'') 0
   \<and> RBRACE \<notin> set (js ''{ab'')
   \<and> extractGroup (js ''{ab'') 0 = \<lparr>content = js ''a'', endIndex = 3\<rparr>
   \<and> getNextUnit (js ''{ab'') 0 = Some \<lparr>content = js ''a'', endIndex = 3, isGroup = True\<rparr>
   \<and> \<not> (content (extractGroup (js ''{ab'') 0) = []
         \<and> endIndex (extractGroup (js ''{ab'') 0) = 0 + 1)"
  by (simp add: neverClosed_def closes_def opens_def parser_eval)

text \<open>
  C6.  For every input without escape markers, script operators and braces, the parser
  returns one run per unit other than the space, in source order, and the spaces yield no
  node; \<open>parse("abc")\<close> is \<open>[Run("a"), Run("b"), Run("c")]\<close>.
\<close>

theorem plain_text_parses_to_runs:
  "(list_all plainChar s \<longrightarrow>
      parseLatexNodes s = Inr (map (\<lambda>c. MathRun [c]) (filter (\<lambda>c. c \<noteq> SPACE) s)))
   \<and> parseLatexNodes (js ''abc'') = Inr [MathRun (js ''a''), MathRun (js ''b''), MathRun (js ''c'')]"
proof -
  have "parseLatexNodes s = Inr (map (\<lambda>c. MathRun [c]) (filter (\<lambda>c. c \<noteq> SPACE) s))"
    if "list_all plainChar s"
    using parse_loop_plain_prefix [OF that, of 0 "[]" "[]"]
    by (simp add: parseLatexNodes_def parse_loop_end)
  moreover have "parseLatexNodes (js ''abc'') =
      Inr [MathRun (js ''a''), MathRun (js ''b''), MathRun (js ''c'')]"
    by (simp add: parser_eval)
  ultimately show ?thesis by blast
qed

theorem plain_text_parses_to_runs_witness:
  "list_all plainChar (js ''a b c'')
   \<and> parseLatexNodes (js ''a b c'') = Inr [MathRun (js ''a''), MathRun (js ''b''), MathRun (js ''c'')]"
  using plain_text_parses_to_runs [of "js ''a b c''"]
  by (simp add: js_def plainChar_def)

text \<open>
  C7.  The claim: every line becomes the heading paragraph, or is split at the segments
  \<open>$...$\<close> and becomes the alternation of text runs and math zones.  A math segment is
  handed to the parser inside \<open>parts.map\<close>, and the parser raises a TypeError on a segment
  in which \<open>\frac\<close> or \<open>\sqrt\<close> lacks an operand (C1): for the line
  \<open>see $\frac$ here\<close> the split gives text, math, text, the math piece \<open>\frac\<close> raises
  and no paragraph is built.  A line that starts with \<open>## \<close> becomes one bold run of size 32
  without the marker, dollar signs included; the line of the specification gives text, math
  zone, text.  For every line whose math pieces all parse, \<open>lineParagraph_structure\<close> has
  the paragraph as the claim describes it.
\<close>

theorem math_segment_raises:
  "\<not> startsWith (js ''see $'' @ BACKSLASH # js ''frac$ here'') (js ''## '')
   \<and> splitMath (js ''see $'' @ BACKSLASH # js ''frac$ here'')
       = [js ''see '', BACKSLASH # js ''frac'', js '' here'']
   \<and> lineParagraph (js ''see $'' @ BACKSLASH # js ''frac$ here'') = Inl TypeError
   \<and> lineParagraph (js ''## Question 1'')
       = Inr (Paragraph [TextRun (js ''Question 1'') True 32] 200 100)
   \<and> lineParagraph (js ''## Find $x$'')
       = Inr (Paragraph [TextRun (js ''Find $x$'') True 32] 200 100)
   \<and> lineParagraph (js ''Area is $'' @ BACKSLASH # js ''frac{1}{2}bh$ sq units'')
       = Inr (Paragraph
           [TextRun (js ''Area is '') False 24,
            Math [MathFraction [MathRun (js ''1'')] [MathRun (js ''2'')],
                  MathRun (js ''b''), MathRun (js ''h'')],
            TextRun (js '' sq units'') False 24] 120 120)"
  by (simp add: assembly_eval parser_eval)

text \<open>
  C8.  The extraction tries the models of \<open>MODELS_TO_TRY\<close> in the order of the list and
  returns the text of the first model whose attempt succeeds, whatever the models after it
  would do.  When the attempt fails for every model of the list, the call raises and returns
  no value; what it raises is the error of the last model tried (a thrown value that is
  falsy, which no library call here produces, is replaced by the generic error).
\<close>

theorem fallback_first_success_or_last_error:
  "(MODELS_TO_TRY = pre @ m # post \<and> list_all (\<lambda>x. isl (attempt x)) pre \<and> attempt m = Inr txt \<longrightarrow>
      extractContentFromFiles attempt = Inr txt)
   \<and> (list_all (\<lambda>x. isl (failing x)) MODELS_TO_TRY \<longrightarrow>
      isl (extractContentFromFiles failing)
      \<and> (failing (last MODELS_TO_TRY) = Inl (ErrorObject msg) \<longrightarrow>
           extractContentFromFiles failing = Inl (ErrorObject msg)))"
proof -
  have "extractContentFromFiles attempt = Inr txt"
    if "MODELS_TO_TRY = pre @ m # post" "list_all (\<lambda>x. isl (attempt x)) pre" "attempt m = Inr txt"
    using tryModels_first_success [OF that(2,3), of post None] that(1)
    by (simp add: extractContentFromFiles_def)
  moreover have "isl (extractContentFromFiles failing)
      \<and> (failing (last MODELS_TO_TRY) = Inl (ErrorObject msg) \<longrightarrow>
           extractContentFromFiles failing = Inl (ErrorObject msg))"
    if "list_all (\<lambda>x. isl (failing x)) MODELS_TO_TRY"
  proof -
    have ne: "MODELS_TO_TRY \<noteq> []" by (simp add: MODELS_TO_TRY_def)
    show ?thesis
      using tryModels_all_fail [OF that ne, of None]
      by (auto simp: extractContentFromFiles_def)
  qed
  ultimately show ?thesis by blast
qed

theorem fallback_first_success_or_last_error_witness:
  "(MODELS_TO_TRY = [''gemini-2.5-flash''] @ ''gemini-2.5-pro'' # [''gemini-2.0-flash'']
      \<and> list_all (\<lambda>x. isl ((\<lambda>n. if n = ''gemini-2.5-pro'' then Inr ''Q1'' else Inl (ErrorObject ''503'')) x))
           [''gemini-2.5-flash'']
      \<and> (\<lambda>n. if n = ''gemini-2.5-pro'' then Inr ''Q1'' else Inl (ErrorObject ''503'')) ''gemini-2.5-pro''
          = Inr ''Q1'')
   \<and> extractContentFromFiles (\<lambda>n. if n = ''gemini-2.5-pro'' then Inr ''Q1'' else Inl (ErrorObject ''503''))
       = Inr ''Q1''
   \<and> list_all (\<lambda>x. isl ((\<lambda>n. Inl (ErrorObject (''failed: '' @ n)) :: thrown + string) x)) MODELS_TO_TRY
   \<and> extractContentFromFiles (\<lambda>n. Inl (ErrorObject (''failed: '' @ n)))
       = Inl (ErrorObject ''failed: gemini-2.0-flash'')"
  using fallback_first_success_or_last_error
    [of "[''gemini-2.5-flash'']" "''gemini-2.5-pro''" "[''gemini-2.0-flash'']"
        "\<lambda>n. if n = ''gemini-2.5-pro'' then Inr ''Q1'' else Inl (ErrorObject ''503'')" "''Q1''"
        "\<lambda>n. Inl (ErrorObject (''failed: '' @ n))" "''failed: gemini-2.0-flash''"]
  by (simp add: MODELS_TO_TRY_def)

text \<open>
  C9.  The claim: for every input that ends in a script operator, the node appended last
  before the operator is popped and lost.  This fails where the final operator is not
  reached by the loop because it is taken as the operand of a script operator or command
  before it: in \<open>x^^\<close> the first operator takes the second as its unit, and the result is
  the superscript node with base \<open>Run("x")\<close> (the counterexample; also \<open>ab_^\<close>).  It
  holds for every input in which the loop reaches the final operator: the result is then
  the node list of the input without that operator, less its last node (and the error of
  that input, if it raises).  For plain text before the operator the result is all runs but
  the last; \<open>parse("x^")\<close> is empty.
\<close>

theorem final_script_operator_drops_last_node:
  "((op = CARET \<or> op = UNDERSCORE) \<and> scanReaches (t @ [op]) 0 (length t) \<longrightarrow>
      parseLatexNodes (t @ [op]) =
        (case parseLatexNodes t of
           Inl err \<Rightarrow> Inl err
         | Inr nodes \<Rightarrow> Inr (butlast nodes)))
   \<and> ((op' = CARET \<or> op' = UNDERSCORE) \<and> list_all plainChar p \<longrightarrow>
      parseLatexNodes (p @ [op']) =
        Inr (butlast (map (\<lambda>c. MathRun [c]) (filter (\<lambda>c. c \<noteq> SPACE) p))))
   \<and> parseLatexNodes (js ''x^'') = Inr []"
proof -
  have a: "parseLatexNodes (t @ [op]) =
        (case parseLatexNodes t of
           Inl err \<Rightarrow> Inl err
         | Inr nodes \<Rightarrow> Inr (butlast nodes))"
    if "op = CARET \<or> op = UNDERSCORE" "scanReaches (t @ [op]) 0 (length t)"
    unfolding parseLatexNodes_def using that by (rule parse_loop_final_operator)
  have last_step: "parse_loop (p @ [op']) (length p) ns = Inr (butlast ns)"
    if "op' = CARET \<or> op' = UNDERSCORE" for ns
    using that parse_loop_script [of "length p" "p @ [op']" ns] by (simp add: getNextUnit_def)
  have b: "parseLatexNodes (p @ [op']) =
        Inr (butlast (map (\<lambda>c. MathRun [c]) (filter (\<lambda>c. c \<noteq> SPACE) p)))"
    if "op' = CARET \<or> op' = UNDERSCORE" "list_all plainChar p"
    using parse_loop_plain_prefix [OF that(2), of 0 "[op']" "[]"] last_step [OF that(1)]
    by (simp add: parseLatexNodes_def)
  have c: "parseLatexNodes (js ''x^'') = Inr []"
    by (simp add: parser_eval)
  from a b c show ?thesis by blast
qed

theorem final_script_operator_drops_last_node_witness:
  "((UNDERSCORE = CARET \<or> UNDERSCORE = UNDERSCORE)
      \<and> scanReaches ((BACKSLASH # js ''frac12 x^{2}'') @ [UNDERSCORE]) 0
           (length (BACKSLASH # js ''frac12 x^{2}'')))
   \<and> parseLatexNodes (BACKSLASH # js ''frac12 x^{2}'') =
       Inr [MathFraction [MathRun (js ''1'')] [MathRun (js ''2'')],
            MathSuperScript [MathRun (js ''x'')] [MathRun (js ''2'')]]
   \<and> parseLatexNodes ((BACKSLASH # js ''frac12 x^{2}'') @ [UNDERSCORE]) =
       Inr [MathFraction [MathRun (js ''1'')] [MathRun (js ''2'')]]
   \<and> list_all plainChar (js ''a b'')
   \<and> parseLatexNodes (js ''a b'' @ [CARET]) = Inr [MathRun (js ''a'')]"
proof -
  let ?t = "BACKSLASH # js ''frac12 x^{2}''"
  have r: "scanReaches (?t @ [UNDERSCORE]) 0 (length ?t)"
    by (simp add: scan_eval parser_eval)
  have p: "parseLatexNodes ?t =
       Inr [MathFraction [MathRun (js ''1'')] [MathRun (js ''2'')],
            MathSuperScript [MathRun (js ''x'')] [MathRun (js ''2'')]]"
    by (simp add: parser_eval)
  have q: "list_all plainChar (js ''a b'')"
    by (simp add: js_def plainChar_def)
  note inst = final_script_operator_drops_last_node [of UNDERSCORE ?t CARET "js ''a b''"]
  from inst r have "parseLatexNodes (?t @ [UNDERSCORE]) =
        (case parseLatexNodes ?t of
           Inl err \<Rightarrow> Inl err
         | Inr nodes \<Rightarrow> Inr (butlast nodes))"
    by blast
  then have a: "parseLatexNodes (?t @ [UNDERSCORE]) =
       Inr [MathFraction [MathRun (js ''1'')] [MathRun (js ''2'')]]"
    unfolding p by simp
  from inst q have "parseLatexNodes (js ''a b'' @ [CARET]) =
        Inr (butlast (map (\<lambda>c. MathRun [c]) (filter (\<lambda>c. c \<noteq> SPACE) (js ''a b''))))"
    by blast
  then have b: "parseLatexNodes (js ''a b'' @ [CARET]) = Inr [MathRun (js ''a'')]"
    by (simp add: js_def)
  from r p a q b show ?thesis by simp
qed

theorem final_script_operator_counterexample:
  "js ''x^^'' = js ''x^'' @ [CARET]
   \<and> parseLatexNodes (js ''x^'') = Inr []
   \<and> parseLatexNodes (js ''x^^'') = Inr [MathSuperScript [MathRun (js ''x'')] []]
   \<and> parseLatexNodes (js ''x^^'') \<noteq> Inr (butlast [])
   \<and> \<not> scanReaches (js ''x^^'') 0 2
   \<and> parseLatexNodes (js ''ab_^'') =
       Inr [MathRun (js ''a''), MathSubScript [MathRun (js ''b'')] []]"
  by (simp add: parser_eval scan_eval)

text \<open>
  C10.  For a brace that is never closed before the end of the input, the content of the
  group is the text after the brace without the last unit of the input, and the cursor moves
  to the end of the input.  So \<open>parse("\frac{1}{2")\<close> has an empty denominator and
  \<open>parse("\sqrt{ab")\<close> the radicand \<open>[Run("a")]\<close>.
\<close>

theorem unclosed_group_drops_last_character:
  "(neverClosed str start \<longrightarrow>
      extractGroup str start =
        \<lparr>content = butlast (drop (start + 1) str), endIndex = length str\<rparr>
      \<and> getNextUnit str start =
        Some \<lparr>content = butlast (drop (start + 1) str), endIndex = length str, isGroup = True\<rparr>)
   \<and> parseLatexNodes (BACKSLASH # js ''frac{1}{2'') = Inr [MathFraction [MathRun (js ''1'')] []]
   \<and> parseLatexNodes (BACKSLASH # js ''sqrt{ab'') = Inr [MathRadical [MathRun (js ''a'')] []]"
proof -
  have "getNextUnit str start =
        Some \<lparr>content = butlast (drop (start + 1) str), endIndex = length str, isGroup = True\<rparr>"
    if "neverClosed str start"
    using extractGroup_never_closed [OF that] that
    by (simp add: getNextUnit_def neverClosed_def)
  moreover have "parseLatexNodes (BACKSLASH # js ''frac{1}{2'') =
      Inr [MathFraction [MathRun (js ''1'')] []]"
    by (simp add: parser_eval)
  moreover have "parseLatexNodes (BACKSLASH # js ''sqrt{ab'') =
      Inr [MathRadical [MathRun (js ''a'')] []]"
    by (simp add: parser_eval)
  ultimately show ?thesis
    using extractGroup_never_closed [of str start] by blast
qed

theorem unclosed_group_drops_last_character_witness:
  "neverClosed (js ''x{a{b}c'') 1
   \<and> extractGroup (js ''x{a{b}c'') 1 = \<lparr>content = js ''a{b}'', endIndex = 7\<rparr>
   \<and> getNextUnit (js ''x{a{b}c'') 1 = Some \<lparr>content = js ''a{b}'', endIndex = 7, isGroup = True\<rparr>"
proof -
  have h: "neverClosed (js ''x{a{b}c'') 1"
    by (simp add: neverClosed_def js_def closes_def opens_def)
  show ?thesis
    using unclosed_group_drops_last_character [of "js ''x{a{b}c''" 1] h
    by (simp add: js_def)
qed

end
